theory Spec2Isabelle
  imports Complex_Main "HOL-Library.AList" "HOL-Library.Multiset"
begin

section \<open>Configuration (types.ts)\<close>

text \<open>
  \<open>ScrapeConfig\<close> as the interface declares it. JavaScript numbers that count
  milliseconds or uses are integers here; \<open>preExtractScript\<close> is the one optional field.
\<close>

record ScrapeConfig =
  concurrency :: int
  timeout :: int
  waitForNetworkIdle :: bool
  blockResources :: bool
  blockedResourceTypes :: "string list"
  extractMainContent :: bool
  includeMetadata :: bool
  headers :: "(string \<times> string) list"
  userAgent :: string
  viewport :: "int \<times> int"
  waitAfterLoad :: int
  preExtractScript :: "string option"
  rotateFingerprints :: bool
  skipStaticDetection :: bool
  contextMaxUses :: int
  perDomainDelayMs :: int
  documentDelimiters :: bool

text \<open>
  \<open>Partial<ScrapeConfig>\<close>: every key may be absent (\<open>None\<close>). A present
  \<open>preExtractScript\<close> key carries the field's own optional value.
\<close>

record PartialConfig =
  p_concurrency :: "int option"
  p_timeout :: "int option"
  p_waitForNetworkIdle :: "bool option"
  p_blockResources :: "bool option"
  p_blockedResourceTypes :: "string list option"
  p_extractMainContent :: "bool option"
  p_includeMetadata :: "bool option"
  p_headers :: "(string \<times> string) list option"
  p_userAgent :: "string option"
  p_viewport :: "(int \<times> int) option"
  p_waitAfterLoad :: "int option"
  p_preExtractScript :: "string option option"
  p_rotateFingerprints :: "bool option"
  p_skipStaticDetection :: "bool option"
  p_contextMaxUses :: "int option"
  p_perDomainDelayMs :: "int option"
  p_documentDelimiters :: "bool option"

definition DEFAULT_CONFIG :: ScrapeConfig where
  "DEFAULT_CONFIG = \<lparr>
     concurrency = 5,
     timeout = 30000,
     waitForNetworkIdle = True,
     blockResources = True,
     blockedResourceTypes = [''image'', ''stylesheet'', ''font'', ''media''],
     extractMainContent = True,
     includeMetadata = True,
     headers = [],
     userAgent = ''Mozilla/5.0 (Macintosh; Intel Mac OS X 10_15_7) AppleWebKit/537.36 (KHTML, like Gecko) Chrome/131.0.0.0 Safari/537.36'',
     viewport = (1280, 800),
     waitAfterLoad = 0,
     preExtractScript = None,
     rotateFingerprints = True,
     skipStaticDetection = False,
     contextMaxUses = 50,
     perDomainDelayMs = 1000,
     documentDelimiters = False \<rparr>"

definition no_override :: PartialConfig where
  "no_override = \<lparr>
     p_concurrency = None, p_timeout = None, p_waitForNetworkIdle = None,
     p_blockResources = None, p_blockedResourceTypes = None, p_extractMainContent = None,
     p_includeMetadata = None, p_headers = None, p_userAgent = None, p_viewport = None,
     p_waitAfterLoad = None, p_preExtractScript = None, p_rotateFingerprints = None,
     p_skipStaticDetection = None, p_contextMaxUses = None, p_perDomainDelayMs = None,
     p_documentDelimiters = None \<rparr>"

text \<open>The object spread \<open>{ ...base, ...over }\<close>: a key present in \<open>over\<close> wins.\<close>

definition pick :: "'a \<Rightarrow> 'a option \<Rightarrow> 'a" where
  "pick b v = (case v of None \<Rightarrow> b | Some x \<Rightarrow> x)"

definition spread :: "ScrapeConfig \<Rightarrow> PartialConfig option \<Rightarrow> ScrapeConfig" where
  "spread base over =
     (case over of
        None \<Rightarrow> base
      | Some p \<Rightarrow> \<lparr>
          concurrency = pick (concurrency base) (p_concurrency p),
          timeout = pick (timeout base) (p_timeout p),
          waitForNetworkIdle = pick (waitForNetworkIdle base) (p_waitForNetworkIdle p),
          blockResources = pick (blockResources base) (p_blockResources p),
          blockedResourceTypes = pick (blockedResourceTypes base) (p_blockedResourceTypes p),
          extractMainContent = pick (extractMainContent base) (p_extractMainContent p),
          includeMetadata = pick (includeMetadata base) (p_includeMetadata p),
          headers = pick (headers base) (p_headers p),
          userAgent = pick (userAgent base) (p_userAgent p),
          viewport = pick (viewport base) (p_viewport p),
          waitAfterLoad = pick (waitAfterLoad base) (p_waitAfterLoad p),
          preExtractScript = pick (preExtractScript base) (p_preExtractScript p),
          rotateFingerprints = pick (rotateFingerprints base) (p_rotateFingerprints p),
          skipStaticDetection = pick (skipStaticDetection base) (p_skipStaticDetection p),
          contextMaxUses = pick (contextMaxUses base) (p_contextMaxUses p),
          perDomainDelayMs = pick (perDomainDelayMs base) (p_perDomainDelayMs p),
          documentDelimiters = pick (documentDelimiters base) (p_documentDelimiters p) \<rparr>)"

section \<open>Per-domain throttle (Scraper.throttleDomain)\<close>

text \<open>
  \<open>domainLastRequest\<close> is a JavaScript \<open>Map\<close>: insertion ordered, \<open>set\<close> on a
  present key keeps its place. An association list with \<open>AList.update\<close> behaves so.
  \<open>new URL(url).hostname\<close> is the platform's parser; it is a parameter
  \<open>hostname\<close> that returns \<open>None\<close> where the constructor throws.

  \<open>throttleDomain\<close> has one suspension point, the \<open>setTimeout\<close> promise. The code
  before it is \<open>throttle_check\<close>, the code after it \<open>throttle_record\<close>; the integer
  arguments are the values \<open>Date.now()\<close> returns at each read.
\<close>

type_synonym pacing_table = "(string \<times> int) list"

datatype throttle_step =
    Skip
  | Proceed string
  | Sleep string int

definition throttle_check ::
  "ScrapeConfig \<Rightarrow> (string \<Rightarrow> string option) \<Rightarrow> pacing_table \<Rightarrow> string \<Rightarrow> int \<Rightarrow> throttle_step"
where
  "throttle_check cfg hostname tbl url now =
     (if perDomainDelayMs cfg \<le> 0 then Skip
      else case hostname url of
        None \<Rightarrow> Skip
      | Some h \<Rightarrow>
          (case map_of tbl h of
             None \<Rightarrow> Proceed h
           | Some lastReq \<Rightarrow>
               (let elapsed = now - lastReq in
                if elapsed < perDomainDelayMs cfg
                then Sleep h (perDomainDelayMs cfg - elapsed)
                else Proceed h)))"

definition throttle_record :: "string \<Rightarrow> int \<Rightarrow> int \<Rightarrow> pacing_table \<Rightarrow> pacing_table" where
  "throttle_record h now_set now_prune tbl =
     (let tbl' = AList.update h now_set tbl in
      if length tbl' > 100
      then filter (\<lambda>(d, ts). \<not> ts < now_prune - 60000) tbl'
      else tbl')"

text \<open>One call run on its own, with nothing else scheduled during its sleep.\<close>

definition throttleDomain ::
  "ScrapeConfig \<Rightarrow> (string \<Rightarrow> string option) \<Rightarrow> pacing_table \<Rightarrow> string \<Rightarrow> int \<Rightarrow> int \<Rightarrow> int
     \<Rightarrow> throttle_step \<times> pacing_table"
where
  "throttleDomain cfg hostname tbl url now now_set now_prune =
     (case throttle_check cfg hostname tbl url now of
        Skip \<Rightarrow> (Skip, tbl)
      | Proceed h \<Rightarrow> (Proceed h, throttle_record h now_set now_prune tbl)
      | Sleep h d \<Rightarrow> (Sleep h d, throttle_record h now_set now_prune tbl))"

text \<open>
  Several calls in flight. \<open>Call j url now now_set now_prune\<close> is job \<open>j\<close> entering
  \<open>throttleDomain\<close> and running to its first suspension (or to the end, when it does not
  sleep); \<open>Wake j now_set now_prune\<close> is its timer firing and the rest of the body
  running. \<open>dispatched\<close> logs the timestamp each job stored in the table, in order.
\<close>

datatype tevent =
    Call nat string int int int
  | Wake nat int int

record tstate =
  table :: pacing_table
  sleeping :: "(nat \<times> string \<times> int \<times> int) list"
  dispatched :: "(nat \<times> string \<times> int) list"

definition tinit :: tstate where
  "tinit = \<lparr> table = [], sleeping = [], dispatched = [] \<rparr>"

fun tstep :: "ScrapeConfig \<Rightarrow> (string \<Rightarrow> string option) \<Rightarrow> tstate \<Rightarrow> tevent \<Rightarrow> tstate" where
  "tstep cfg hostname s (Call j url now now_set now_prune) =
     (case throttle_check cfg hostname (table s) url now of
        Skip \<Rightarrow> s
      | Proceed h \<Rightarrow>
          s\<lparr> table := throttle_record h now_set now_prune (table s),
             dispatched := dispatched s @ [(j, h, now_set)] \<rparr>
      | Sleep h d \<Rightarrow> s\<lparr> sleeping := sleeping s @ [(j, h, now, d)] \<rparr>)"
| "tstep cfg hostname s (Wake j now_set now_prune) =
     (case find (\<lambda>(k, h, armed, d). k = j) (sleeping s) of
        None \<Rightarrow> s
      | Some (k, h, armed, d) \<Rightarrow>
          s\<lparr> table := throttle_record h now_set now_prune (table s),
             sleeping := filter (\<lambda>(k, h, armed, d). k \<noteq> j) (sleeping s),
             dispatched := dispatched s @ [(j, h, now_set)] \<rparr>)"

definition trun :: "ScrapeConfig \<Rightarrow> (string \<Rightarrow> string option) \<Rightarrow> tevent list \<Rightarrow> tstate" where
  "trun cfg hostname evs = foldl (tstep cfg hostname) tinit evs"

text \<open>
  A timer never fires early: every \<open>Wake\<close> of a trace comes at least the requested
  duration after the moment the sleep was computed.
\<close>

fun timers_respected ::
  "ScrapeConfig \<Rightarrow> (string \<Rightarrow> string option) \<Rightarrow> tstate \<Rightarrow> tevent list \<Rightarrow> bool"
where
  "timers_respected cfg hostname s [] = True"
| "timers_respected cfg hostname s (Call j url now a b # evs) =
     timers_respected cfg hostname (tstep cfg hostname s (Call j url now a b)) evs"
| "timers_respected cfg hostname s (Wake j now_set b # evs) =
     ((case find (\<lambda>(k, h, armed, d). k = j) (sleeping s) of
         None \<Rightarrow> False
       | Some (k, h, armed, d) \<Rightarrow> armed + d \<le> now_set)
      \<and> timers_respected cfg hostname (tstep cfg hostname s (Wake j now_set b)) evs)"

section \<open>Strings and the regular expressions of looksLikeSPA\<close>

text \<open>
  A \<open>char\<close> stands for one code unit of the JavaScript string, so \<open>length\<close> is
  \<open>.length\<close> on strings whose code units are below 256. The flag \<open>i\<close> folds ASCII
  letters only: a pattern letter never matches a code unit above 127.
\<close>

definition lower :: "char \<Rightarrow> char" where
  "lower c =
     (case map_of (zip ''ABCDEFGHIJKLMNOPQRSTUVWXYZ'' ''abcdefghijklmnopqrstuvwxyz'') c of
        None \<Rightarrow> c
      | Some l \<Rightarrow> l)"

text \<open>The class \<open>\s\<close> and the characters \<open>trim\<close> removes, among code units below 256.\<close>

definition is_space :: "char \<Rightarrow> bool" where
  "is_space c = List.member [CHR 0x09, CHR 0x0A, CHR 0x0B, CHR 0x0C, CHR 0x0D, CHR 0x20, CHR 0xA0] c"

text \<open>\<open>starts_ci p s\<close>: the lower-case literal \<open>p\<close> matches at the start of \<open>s\<close> under flag \<open>i\<close>.\<close>

fun starts_ci :: "string \<Rightarrow> string \<Rightarrow> bool" where
  "starts_ci [] s = True"
| "starts_ci (p # ps) [] = False"
| "starts_ci (p # ps) (c # cs) = (lower c = p \<and> starts_ci ps cs)"

text \<open>
  \<open>find_ci p s\<close>: the first occurrence of \<open>p\<close> in \<open>s\<close>, as the text before it and the
  text after it. A lazy \<open>[\s\S]*?\<close> followed by a literal stops there.
\<close>

fun find_ci :: "string \<Rightarrow> string \<Rightarrow> (string \<times> string) option" where
  "find_ci p [] = (if p = [] then Some ([], []) else None)"
| "find_ci p (c # cs) =
     (if starts_ci p (c # cs) then Some ([], drop (length p) (c # cs))
      else case find_ci p cs of
        None \<Rightarrow> None
      | Some (b, a) \<Rightarrow> Some (c # b, a))"

text \<open>\<open>String.prototype.includes\<close>.\<close>

fun starts_with :: "string \<Rightarrow> string \<Rightarrow> bool" where
  "starts_with [] s = True"
| "starts_with (p # ps) [] = False"
| "starts_with (p # ps) (c # cs) = (c = p \<and> starts_with ps cs)"

fun str_includes :: "string \<Rightarrow> string \<Rightarrow> bool" where
  "str_includes [] p = (p = [])"
| "str_includes (c # cs) p = (starts_with p (c # cs) \<or> str_includes cs p)"

text \<open>
  \<open>/<div\s+id=["'](?:root|app|__next|__nuxt)["'][^>]*>\s*<\/div>/i\<close>, tried at the start
  of \<open>s\<close>. Each greedy run is followed by a character outside its class, so
  backtracking never finds a second way to match.
\<close>

definition is_quote :: "char \<Rightarrow> bool" where
  "is_quote c = (c = CHR 0x22 \<or> c = CHR 0x27)"

definition after_root_id :: "string \<Rightarrow> string option" where
  "after_root_id s =
     (if starts_ci ''root'' s then Some (drop 4 s)
      else if starts_ci ''app'' s then Some (drop 3 s)
      else if starts_ci ''__next'' s then Some (drop 6 s)
      else if starts_ci ''__nuxt'' s then Some (drop 6 s)
      else None)"

definition empty_root_at :: "string \<Rightarrow> bool" where
  "empty_root_at s =
     (starts_ci ''<div'' s \<and>
      (case drop 4 s of
         [] \<Rightarrow> False
       | w # s1 \<Rightarrow>
           is_space w \<and>
           (let s2 = dropWhile is_space s1 in
            starts_ci ''id='' s2 \<and>
            (case drop 3 s2 of
               [] \<Rightarrow> False
             | q # s3 \<Rightarrow>
                 is_quote q \<and>
                 (case after_root_id s3 of
                    None \<Rightarrow> False
                  | Some s4 \<Rightarrow>
                      (case s4 of
                         [] \<Rightarrow> False
                       | q' # s5 \<Rightarrow>
                           is_quote q' \<and>
                           (case dropWhile (\<lambda>c. c \<noteq> CHR ''>'') s5 of
                              [] \<Rightarrow> False
                            | g # s6 \<Rightarrow> starts_ci ''</div>'' (dropWhile is_space s6))))))))"

fun has_empty_root :: "string \<Rightarrow> bool" where
  "has_empty_root [] = False"
| "has_empty_root (c # cs) = (empty_root_at (c # cs) \<or> has_empty_root cs)"

text \<open>
  \<open>html.match(/<body[^>]*>([\s\S]*?)<\/body>/i)\<close>: the leftmost start at which the
  pattern matches; the result is capture group 1.
\<close>

definition body_at :: "string \<Rightarrow> string option" where
  "body_at s =
     (if starts_ci ''<body'' s
      then (case dropWhile (\<lambda>c. c \<noteq> CHR ''>'') (drop 5 s) of
              [] \<Rightarrow> None
            | g # rest \<Rightarrow> map_option fst (find_ci ''</body>'' rest))
      else None)"

fun bodyMatch :: "string \<Rightarrow> string option" where
  "bodyMatch [] = None"
| "bodyMatch (c # cs) =
     (case body_at (c # cs) of
        Some b \<Rightarrow> Some b
      | None \<Rightarrow> bodyMatch cs)"

text \<open>
  \<open>.replace(re, "")\<close> with flag \<open>g\<close>: \<open>m s\<close> is the length of the match of \<open>re\<close> at
  the start of \<open>s\<close>, if there is one; the first argument counts the characters of the
  current match that are still to be dropped.
\<close>

fun remove_matches :: "(string \<Rightarrow> nat option) \<Rightarrow> nat \<Rightarrow> string \<Rightarrow> string" where
  "remove_matches m k [] = []"
| "remove_matches m (Suc k) (c # cs) = remove_matches m k cs"
| "remove_matches m 0 (c # cs) =
     (case m (c # cs) of
        Some (Suc n) \<Rightarrow> remove_matches m n cs
      | _ \<Rightarrow> c # remove_matches m 0 cs)"

text \<open>\<open>/<script[\s\S]*?<\/script>/gi\<close> and \<open>/<style[\s\S]*?<\/style>/gi\<close>.\<close>

definition match_block :: "string \<Rightarrow> string \<Rightarrow> string \<Rightarrow> nat option" where
  "match_block opening closing s =
     (if starts_ci opening s
      then (case find_ci closing (drop (length opening) s) of
              None \<Rightarrow> None
            | Some (b, a) \<Rightarrow> Some (length opening + length b + length closing))
      else None)"

text \<open>\<open>/<[^>]+>/g\<close>.\<close>

definition match_tag :: "string \<Rightarrow> nat option" where
  "match_tag s =
     (case s of
        [] \<Rightarrow> None
      | c # cs \<Rightarrow>
          if c = CHR ''<''
          then (let run = takeWhile (\<lambda>x. x \<noteq> CHR ''>'') cs in
                if run \<noteq> [] \<and> length run < length cs then Some (length run + 2) else None)
          else None)"

definition trim :: "string \<Rightarrow> string" where
  "trim s = rev (dropWhile is_space (rev (dropWhile is_space s)))"

definition bodyContent :: "string \<Rightarrow> string" where
  "bodyContent b =
     trim (remove_matches match_tag 0
       (remove_matches (match_block ''<style'' ''</style>'') 0
         (remove_matches (match_block ''<script'' ''</script>'') 0 b)))"

definition looksLikeSPA :: "string \<Rightarrow> bool" where
  "looksLikeSPA html =
     (if has_empty_root html then True
      else case bodyMatch html of
        Some b \<Rightarrow> (if length (bodyContent b) < 200 then True else False)
      | None \<Rightarrow> False)"

subsection \<open>Documents as sequences of pieces\<close>

text \<open>
  The definitions of this subsection are not taken from the source. They say what the
  heuristic is meant to measure, on a document given by its parts instead of by regular
  expressions: a run of text, a tag, a script block and a style block. \<open>html_of\<close>
  writes the document as the string a server sends, and \<open>visible_text\<close> is the text
  that is left when the script blocks, the style blocks and all tags are taken away. The
  properties of \<open>looksLikeSPA\<close> compare what the code computes on \<open>html_of\<close> with
  \<open>visible_text\<close>.
\<close>

datatype piece = Text string | Tag string | Script string string | Style string string

fun render_piece :: "piece \<Rightarrow> string" where
  "render_piece (Text t) = t"
| "render_piece (Tag m) = ''<'' @ m @ ''>''"
| "render_piece (Script a c) = ''<script'' @ a @ ''>'' @ c @ ''</script>''"
| "render_piece (Style a c) = ''<style'' @ a @ ''>'' @ c @ ''</style>''"

definition html_of :: "piece list \<Rightarrow> string" where
  "html_of ps = concat (map render_piece ps)"



text \<open>
  A piece is well formed when its parts can be told apart in the rendered string: text,
  attributes and block contents hold no \<open><\<close>; the inside of a tag is not empty, holds
  no \<open><\<close> and no \<open>>\<close>, and does not begin like a script or style block.
\<close>

definition plain :: "string \<Rightarrow> bool" where
  "plain s = (CHR ''<'' \<notin> set s)"









text \<open>
  The real text of a string is what stands between the white space at its two ends:
  \<open>solid t\<close> says that \<open>t\<close> neither starts nor ends with white space.
\<close>

definition solid :: "string \<Rightarrow> bool" where
  "solid t = (t = [] \<or> (\<not> is_space (hd t) \<and> \<not> is_space (last t)))"

section \<open>Jobs, results and the collaborators of a job\<close>

record PageMetadata =
  title :: string
  description :: string
  meta_url :: string
  domain :: string
  language :: "string option"
  author :: "string option"
  publishedDate :: "string option"
  wordCount :: int

record Timing =
  t_total :: real
  t_navigation :: real
  t_extraction :: real
  t_conversion :: real

record ScrapeResult =
  res_id :: string
  res_url :: string
  markdown :: string
  metadata :: PageMetadata
  timing :: Timing
  res_error :: "string option"

record ScrapeJob =
  job_url :: string
  job_id :: string
  job_priority :: "int option"
  job_config :: "PartialConfig option"

text \<open>
  A thrown value is an \<open>Error\<close> object (its \<open>name\<close> and \<open>message\<close>) or any other value
  (given by what \<open>String\<close> makes of it). A call of a collaborator throws or returns.
\<close>

datatype thrown =
    ErrorObj string string
  | Value string

datatype 'a outcome =
    Throws thrown
  | Returns 'a

text \<open>\<open>err instanceof Error ? err.message : String(err)\<close>\<close>

fun err_message :: "thrown \<Rightarrow> string" where
  "err_message (ErrorObj n m) = m"
| "err_message (Value v) = v"

text \<open>\<open>String(reason)\<close>; for an \<open>Error\<close> this is \<open>Error.prototype.toString\<close>.\<close>

fun String_of :: "thrown \<Rightarrow> string" where
  "String_of (ErrorObj n m) = (if n = [] then m else if m = [] then n else n @ '': '' @ m)"
| "String_of (Value v) = v"

text \<open>
  The functions of extractor.ts and html-to-markdown.ts run third-party parsers; each is a
  function of its arguments that returns or throws. \<open>hostname\<close> is \<open>new URL(url).hostname\<close>.
\<close>

record world =
  hostname :: "string \<Rightarrow> string option"
  extractContent :: "string \<Rightarrow> string \<Rightarrow> (string \<times> PageMetadata) outcome"
  extractFullPage :: "string \<Rightarrow> string \<Rightarrow> (string \<times> PageMetadata) outcome"
  htmlToMarkdown :: "string \<Rightarrow> string \<Rightarrow> string outcome"

text \<open>The response of \<open>fetch\<close>: \<open>ok\<close>, the content-type header, \<open>text()\<close>, \<open>url\<close>.\<close>

record FetchResponse =
  resp_ok :: bool
  resp_contentType :: "string option"
  resp_text :: "string outcome"
  resp_url :: string

text \<open>
  What the network, the pool and the page do for one job: the outcome of each awaited call,
  in the order \<open>processJob\<close> makes them.
\<close>

record job_run =
  fetch_r :: "FetchResponse outcome"
  acquire_r :: "nat outcome"
  newPage_r :: "unit outcome"
  goto_r :: "string \<Rightarrow> int \<Rightarrow> string \<Rightarrow> unit outcome"
  waitForTimeout_r :: "int \<Rightarrow> unit outcome"
  evaluate_r :: "string \<Rightarrow> unit outcome"
  content_r :: "string outcome"
  page_url_r :: string
  close_r :: "unit outcome"

text \<open>The value \<open>performance.now()\<close> returns at each place \<open>processJob\<close> reads it.\<close>

record perf_reads =
  totalStart :: real
  st_extractStart :: real
  st_extractEnd :: real
  st_convertStart :: real
  st_convertEnd :: real
  st_totalEnd :: real
  navStart :: real
  navEnd :: real
  br_extractStart :: real
  br_extractEnd :: real
  br_convertStart :: real
  br_convertEnd :: real
  br_totalEnd :: real
  catchNow :: real

section \<open>The static fast path (Scraper.tryStaticFetch)\<close>

definition tryStaticFetch :: "job_run \<Rightarrow> string \<Rightarrow> ScrapeConfig \<Rightarrow> (string \<times> string) option" where
  "tryStaticFetch R url config =
     (case fetch_r R of
        Throws e \<Rightarrow> None
      | Returns response \<Rightarrow>
          if \<not> resp_ok response then None
          else
            (let contentType = (case resp_contentType response of None \<Rightarrow> [] | Some c \<Rightarrow> c) in
             if \<not> str_includes contentType ''text/html'' \<and>
                \<not> str_includes contentType ''application/xhtml''
             then None
             else case resp_text response of
               Throws e \<Rightarrow> None
             | Returns html \<Rightarrow>
                 (let finalUrl = (if resp_url response = [] then url else resp_url response) in
                  if looksLikeSPA html then None else Some (html, finalUrl))))"

section \<open>Scraper.processJob\<close>

fun join :: "string \<Rightarrow> string list \<Rightarrow> string" where
  "join sep [] = []"
| "join sep [x] = x"
| "join sep (x # y # ys) = x @ sep @ join sep (y # ys)"

definition formatMetadataHeader :: "PageMetadata \<Rightarrow> string" where
  "formatMetadataHeader meta =
     (let lines0 = (if title meta \<noteq> [] then [''# '' @ title meta] else []) @ [[]];
          details = (if description meta \<noteq> [] then [[CHR 0x0A, CHR 0x0A] @ description meta] else []);
          lines1 = (if details \<noteq> [] then lines0 @ details @ [[], ''---'', []] else lines0)
      in join [CHR 0x0A] lines1)"

definition emptyMetadata :: "world \<Rightarrow> string \<Rightarrow> PageMetadata" where
  "emptyMetadata W url =
     \<lparr> title = [], description = [], meta_url = url,
       domain = (case hostname W url of None \<Rightarrow> [] | Some h \<Rightarrow> h),
       language = None, author = None, publishedDate = None, wordCount = 0 \<rparr>"

text \<open>A string option is truthy when it is present and not empty.\<close>

definition truthy :: "string option \<Rightarrow> bool" where
  "truthy v = (case v of None \<Rightarrow> False | Some s \<Rightarrow> s \<noteq> [])"

definition build_output :: "ScrapeConfig \<Rightarrow> ScrapeJob \<Rightarrow> PageMetadata \<Rightarrow> string \<Rightarrow> string" where
  "build_output jobConfig job meta md =
     (let output = (if includeMetadata jobConfig then formatMetadataHeader meta else []) @ md in
      if documentDelimiters jobConfig
      then ''<document source='' @ [CHR 0x22] @ job_url job @ [CHR 0x22] @ '' domain='' @ [CHR 0x22]
           @ domain meta @ [CHR 0x22] @ ''>'' @ [CHR 0x0A] @ output @ [CHR 0x0A] @ ''</document>''
      else output)"

definition extract_html :: "world \<Rightarrow> ScrapeConfig \<Rightarrow> string \<Rightarrow> string \<Rightarrow> (string \<times> PageMetadata) outcome" where
  "extract_html W jobConfig html finalUrl =
     (if extractMainContent jobConfig then extractContent W html finalUrl
      else extractFullPage W html finalUrl)"

text \<open>The branch taken when \<open>tryStaticFetch\<close> returns a page. Nothing here is inside a \<open>try\<close>.\<close>

definition static_path ::
  "world \<Rightarrow> perf_reads \<Rightarrow> ScrapeConfig \<Rightarrow> ScrapeJob \<Rightarrow> string \<times> string \<Rightarrow> thrown + ScrapeResult"
where
  "static_path W P jobConfig job staticResult =
     (case extract_html W jobConfig (fst staticResult) (snd staticResult) of
        Throws e \<Rightarrow> Inl e
      | Returns (content, meta) \<Rightarrow>
          (case htmlToMarkdown W content (snd staticResult) of
             Throws e \<Rightarrow> Inl e
           | Returns md \<Rightarrow>
               Inr \<lparr> res_id = job_id job, res_url = job_url job,
                     markdown = build_output jobConfig job meta md,
                     metadata = meta,
                     timing = \<lparr> t_total = st_totalEnd P - totalStart P,
                                t_navigation = st_extractStart P - totalStart P,
                                t_extraction = st_extractEnd P - st_extractStart P,
                                t_conversion = st_convertEnd P - st_convertStart P \<rparr>,
                     res_error = None \<rparr>))"

text \<open>
  The body of the inner \<open>try\<close>, from \<open>page.goto\<close> to the \<open>return\<close>. The two calls whose
  rejection is swallowed by \<open>.catch\<close> (waitForFunction, the banner click) leave no trace.
\<close>

definition render ::
  "world \<Rightarrow> job_run \<Rightarrow> perf_reads \<Rightarrow> ScrapeConfig \<Rightarrow> ScrapeJob \<Rightarrow> thrown + ScrapeResult"
where
  "render W R P jobConfig job =
     (case goto_r R (job_url job) (timeout jobConfig)
             (if waitForNetworkIdle jobConfig then ''networkidle'' else ''domcontentloaded'') of
        Throws e \<Rightarrow> Inl e
      | Returns u1 \<Rightarrow>
     (case (if waitAfterLoad jobConfig > 0 then waitForTimeout_r R (waitAfterLoad jobConfig)
            else Returns ()) of
        Throws e \<Rightarrow> Inl e
      | Returns u2 \<Rightarrow>
     (case (if truthy (preExtractScript jobConfig)
            then evaluate_r R (case preExtractScript jobConfig of None \<Rightarrow> [] | Some sc \<Rightarrow> sc)
            else Returns ()) of
        Throws e \<Rightarrow> Inl e
      | Returns u3 \<Rightarrow>
     (case content_r R of
        Throws e \<Rightarrow> Inl e
      | Returns html \<Rightarrow>
     (case extract_html W jobConfig html (page_url_r R) of
        Throws e \<Rightarrow> Inl e
      | Returns (content, meta) \<Rightarrow>
     (case htmlToMarkdown W content (page_url_r R) of
        Throws e \<Rightarrow> Inl e
      | Returns md \<Rightarrow>
          Inr \<lparr> res_id = job_id job, res_url = job_url job,
                markdown = build_output jobConfig job meta md,
                metadata = meta,
                timing = \<lparr> t_total = br_totalEnd P - totalStart P,
                           t_navigation = navEnd P - navStart P,
                           t_extraction = br_extractEnd P - br_extractStart P,
                           t_conversion = br_convertEnd P - br_convertStart P \<rparr>,
                res_error = None \<rparr>))))))"

text \<open>
  \<open>try { ... } finally { await page.close() }\<close>: a throwing \<open>close\<close> replaces whatever
  the body produced.
\<close>

definition with_page ::
  "world \<Rightarrow> job_run \<Rightarrow> perf_reads \<Rightarrow> ScrapeConfig \<Rightarrow> ScrapeJob \<Rightarrow> thrown + ScrapeResult"
where
  "with_page W R P jobConfig job =
     (let r = render W R P jobConfig job in
      case close_r R of
        Throws e \<Rightarrow> Inl e
      | Returns u \<Rightarrow> r)"

text \<open>The \<open>catch (err)\<close> block of the outer \<open>try\<close>.\<close>

definition failure_result :: "world \<Rightarrow> perf_reads \<Rightarrow> ScrapeJob \<Rightarrow> thrown \<Rightarrow> ScrapeResult" where
  "failure_result W P job err =
     \<lparr> res_id = job_id job, res_url = job_url job, markdown = [],
       metadata = emptyMetadata W (job_url job),
       timing = \<lparr> t_total = catchNow P - totalStart P,
                  t_navigation = 0, t_extraction = 0, t_conversion = 0 \<rparr>,
       res_error = Some (err_message err) \<rparr>"

text \<open>
  The browser path. \<open>await this.pool.acquire()\<close> stands before the outer \<open>try\<close>;
  \<open>this.pool.release\<close> in its \<open>finally\<close> is synchronous and has no \<open>throw\<close>.
\<close>

definition browser_path ::
  "world \<Rightarrow> job_run \<Rightarrow> perf_reads \<Rightarrow> ScrapeConfig \<Rightarrow> ScrapeJob \<Rightarrow> thrown + ScrapeResult"
where
  "browser_path W R P jobConfig job =
     (case acquire_r R of
        Throws e \<Rightarrow> Inl e
      | Returns ctx \<Rightarrow>
          (case (case newPage_r R of
                   Throws e \<Rightarrow> Inl e
                 | Returns u \<Rightarrow> with_page W R P jobConfig job) of
             Inl err \<Rightarrow> Inr (failure_result W P job err)
           | Inr r \<Rightarrow> Inr r))"

text \<open>
  \<open>processJob\<close> after its first statement pair: \<open>Inl\<close> is a rejected promise, \<open>Inr\<close> the
  result it resolves with. The throttle stage, which comes first, returns nothing and has
  no \<open>throw\<close>; it is \<open>processJob_throttle\<close> below.
\<close>

definition processJob ::
  "world \<Rightarrow> job_run \<Rightarrow> perf_reads \<Rightarrow> ScrapeConfig \<Rightarrow> ScrapeJob \<Rightarrow> thrown + ScrapeResult"
where
  "processJob W R P config job =
     (let jobConfig = spread config (job_config job) in
      case (if \<not> skipStaticDetection jobConfig \<and> \<not> truthy (preExtractScript jobConfig)
            then tryStaticFetch R (job_url job) jobConfig else None) of
        Some staticResult \<Rightarrow> static_path W P jobConfig job staticResult
      | None \<Rightarrow> browser_path W R P jobConfig job)"

text \<open>
  \<open>await this.throttleDomain(job.url)\<close> up to its suspension: the call passes the url
  only, and \<open>throttleDomain\<close> reads \<open>this.config\<close>.
\<close>

definition processJob_throttle ::
  "ScrapeConfig \<Rightarrow> (string \<Rightarrow> string option) \<Rightarrow> pacing_table \<Rightarrow> ScrapeJob \<Rightarrow> int \<Rightarrow> throttle_step"
where
  "processJob_throttle config hn tbl job now =
     (let jobConfig = spread config (job_config job) in
      throttle_check config hn tbl (job_url job) now)"

section \<open>The public operations scrape and scrapeMany\<close>

text \<open>
  \<open>init\<close> is the outcome of \<open>await this.initialize()\<close>; \<open>uuid\<close> lists the values
  \<open>newJobId()\<close> returns, in call order. \<open>scrape\<close> returns the promise of \<open>processJob\<close>.
\<close>

definition scrape ::
  "unit outcome \<Rightarrow> world \<Rightarrow> job_run \<Rightarrow> perf_reads \<Rightarrow> ScrapeConfig \<Rightarrow> (nat \<Rightarrow> string) \<Rightarrow> string
     \<Rightarrow> PartialConfig option \<Rightarrow> thrown + ScrapeResult"
where
  "scrape init W R P config uuid url ov =
     (case init of
        Throws e \<Rightarrow> Inl e
      | Returns u \<Rightarrow>
          processJob W R P config
            \<lparr> job_url = url, job_id = uuid 0, job_priority = None, job_config = ov \<rparr>)"

text \<open>
  An element of \<open>Promise.allSettled\<close>. The promise \<open>queue.add(task)\<close> returns settles as
  the task's promise does; its declared value type also admits \<open>void\<close> (\<open>None\<close>).
\<close>

datatype settled =
    Fulfilled "ScrapeResult option"
  | Rejected thrown

definition queue_add :: "thrown + ScrapeResult \<Rightarrow> settled" where
  "queue_add r = (case r of Inl e \<Rightarrow> Rejected e | Inr v \<Rightarrow> Fulfilled (Some v))"

definition make_jobs :: "(nat \<Rightarrow> string) \<Rightarrow> string list \<Rightarrow> PartialConfig option \<Rightarrow> ScrapeJob list" where
  "make_jobs uuid urls ov =
     map (\<lambda>(i, url). \<lparr> job_url = url, job_id = uuid i, job_priority = Some (int i), job_config = ov \<rparr>)
       (enumerate 0 urls)"

definition zero_timing :: Timing where
  "zero_timing = \<lparr> t_total = 0, t_navigation = 0, t_extraction = 0, t_conversion = 0 \<rparr>"

text \<open>The callback of \<open>results.map((r, i) => ...)\<close>.\<close>

definition settled_result :: "world \<Rightarrow> (nat \<Rightarrow> string) \<Rightarrow> ScrapeJob list \<Rightarrow> nat \<Rightarrow> settled \<Rightarrow> ScrapeResult" where
  "settled_result W uuid jobs i r =
     (case r of
        Fulfilled (Some v) \<Rightarrow> v
      | _ \<Rightarrow>
          (let job = (if i < length jobs then Some (jobs ! i) else None);
               url = (case job of None \<Rightarrow> [] | Some j \<Rightarrow> job_url j);
               jid = (case job of None \<Rightarrow> uuid (length jobs + i) | Some j \<Rightarrow> job_id j)
           in \<lparr> res_id = jid, res_url = url, markdown = [],
                metadata = emptyMetadata W url,
                timing = zero_timing,
                res_error = Some (case r of Rejected reason \<Rightarrow> String_of reason
                                          | _ \<Rightarrow> ''Unknown error'') \<rparr>))"

text \<open>Job \<open>i\<close> of the batch runs against \<open>Rs i\<close> and \<open>Ps i\<close>.\<close>

definition scrapeMany ::
  "unit outcome \<Rightarrow> world \<Rightarrow> (nat \<Rightarrow> job_run) \<Rightarrow> (nat \<Rightarrow> perf_reads) \<Rightarrow> ScrapeConfig
     \<Rightarrow> (nat \<Rightarrow> string) \<Rightarrow> string list \<Rightarrow> PartialConfig option \<Rightarrow> thrown + ScrapeResult list"
where
  "scrapeMany init W Rs Ps config uuid urls ov =
     (case init of
        Throws e \<Rightarrow> Inl e
      | Returns u \<Rightarrow>
          (let jobs = make_jobs uuid urls ov;
               results = map (\<lambda>(i, job). queue_add (processJob W (Rs i) (Ps i) config job))
                           (enumerate 0 jobs)
           in Inr (map (\<lambda>(i, r). settled_result W uuid jobs i r) (enumerate 0 results))))"

subsection \<open>Sample collaborators\<close>

definition page_of :: "nat \<Rightarrow> string" where
  "page_of n = ''<html><body><p>'' @ replicate n CHR ''x'' @ ''</p></body></html>''"

definition host_of :: "string \<Rightarrow> string option" where
  "host_of url =
     (if starts_with ''https://'' url then Some (takeWhile (\<lambda>c. c \<noteq> CHR ''/'') (drop 8 url))
      else None)"

definition sample_meta :: "string \<Rightarrow> PageMetadata" where
  "sample_meta url =
     \<lparr> title = ''T'', description = [], meta_url = url, domain = ''example.com'',
       language = None, author = None, publishedDate = None, wordCount = 1 \<rparr>"

definition world_ok :: world where
  "world_ok =
     \<lparr> hostname = host_of,
       extractContent = (\<lambda>html url. Returns (html, sample_meta url)),
       extractFullPage = (\<lambda>html url. Returns (html, sample_meta url)),
       htmlToMarkdown = (\<lambda>html url. Returns ''text'') \<rparr>"

definition world_extract_throws :: world where
  "world_extract_throws =
     world_ok\<lparr> extractContent := (\<lambda>html url. Throws (ErrorObj ''TypeError'' ''bad document'')) \<rparr>"

definition html_response :: "string \<Rightarrow> FetchResponse" where
  "html_response html =
     \<lparr> resp_ok = True, resp_contentType = Some ''text/html; charset=utf-8'',
       resp_text = Returns html, resp_url = [] \<rparr>"

definition run_ok :: job_run where
  "run_ok =
     \<lparr> fetch_r = Throws (ErrorObj ''TypeError'' ''fetch failed''),
       acquire_r = Returns 0,
       newPage_r = Returns (),
       goto_r = (\<lambda>url t w. Returns ()),
       waitForTimeout_r = (\<lambda>t. Returns ()),
       evaluate_r = (\<lambda>sc. Returns ()),
       content_r = Returns (page_of 3),
       page_url_r = ''https://example.com/'',
       close_r = Returns () \<rparr>"

definition run_goto_throws :: job_run where
  "run_goto_throws =
     run_ok\<lparr> goto_r := (\<lambda>url t w. Throws (ErrorObj ''TimeoutError'' ''Timeout 30000ms exceeded'')) \<rparr>"

definition run_static :: "nat \<Rightarrow> job_run" where
  "run_static n = run_ok\<lparr> fetch_r := Returns (html_response (page_of n)) \<rparr>"

definition perf_sample :: perf_reads where
  "perf_sample =
     \<lparr> totalStart = 100, st_extractStart = 101, st_extractEnd = 102, st_convertStart = 102,
       st_convertEnd = 103, st_totalEnd = 103, navStart = 101, navEnd = 104,
       br_extractStart = 104, br_extractEnd = 105, br_convertStart = 105, br_convertEnd = 106,
       br_totalEnd = 106, catchNow = 105 \<rparr>"

definition two_runs :: "nat \<Rightarrow> job_run" where
  "two_runs i = (if i = 0 then run_goto_throws else run_ok)"

definition run_acquire_throws :: job_run where
  "run_acquire_throws = run_ok\<lparr> acquire_r := Throws (ErrorObj ''Error'' ''Browser not initialized'') \<rparr>"

definition body_of :: "nat \<Rightarrow> string" where
  "body_of n = ''<p>'' @ replicate n CHR ''x'' @ ''</p>''"

definition job_a :: ScrapeJob where
  "job_a = \<lparr> job_url = ''https://example.com/a'', job_id = ''job-a'', job_priority = None,
             job_config = None \<rparr>"

definition override_delay :: "int \<Rightarrow> PartialConfig option" where
  "override_delay d = Some (no_override\<lparr> p_perDomainDelayMs := Some d \<rparr>)"

text \<open>
  Three jobs for one host: the first finds the table empty, the other two enter while
  no later timestamp is stored yet and sleep side by side.
\<close>

definition overlap_trace :: "tevent list" where
  "overlap_trace =
     [Call 0 ''https://example.com/a'' 0 0 0,
      Call 1 ''https://example.com/b'' 10 10 10,
      Call 2 ''https://example.com/c'' 10 10 10,
      Wake 1 1000 1000,
      Wake 2 1000 1000]"










section \<open>The context pool (browser-pool.ts)\<close>

text \<open>
  A \<open>BrowserPoolContext\<close> is a mutable object reached from the map \<open>contexts\<close>, from
  the array \<open>available\<close> and from the closures of suspended calls, so the objects live
  in a store and the other fields hold references. \<open>createPoolContext\<close> makes one
  wrapper per browser context and never reassigns its \<open>context\<close> field; the store keeps
  the wrapper under the number that also names the browser context it wraps
  (\<open>browserContext\<close>), taken from \<open>next_ref\<close>.
\<close>

record BrowserPoolContext =
  browserContext :: nat
  busy :: bool
  createdAt :: int
  useCount :: int
  ctx_id :: nat

text \<open>
  The fields of the class, then the calls suspended at an \<open>await\<close>, then a log of who
  holds what. \<open>probing\<close>: calls of \<open>acquire\<close> waiting for the health check, with the
  entry they popped. \<open>resuming\<close>: calls of \<open>acquire\<close> whose \<open>recycleContext\<close> has
  resolved, with the entry they popped. \<open>recycling\<close>: entries whose \<open>recycleContext\<close>,
  started by \<open>release\<close>, is pending. \<open>recycled\<close>: entries for which it has resolved and
  the \<open>then\<close> callback has not run yet. \<open>holders\<close>: for each call of \<open>acquire\<close> that has
  returned and whose context was not released since, the caller and the context.
\<close>

record BrowserPool =
  browser :: bool
  store :: "nat \<Rightarrow> BrowserPoolContext"
  next_ref :: nat
  contexts :: "(nat \<times> nat) list"
  available :: "nat list"
  waiters :: "nat list"
  pool_config :: ScrapeConfig
  poolSize :: int
  nextContextId :: nat
  probing :: "(nat \<times> nat) list"
  resuming :: "(nat \<times> nat) list"
  recycling :: "nat list"
  recycled :: "nat list"
  holders :: "(nat \<times> nat) list"

definition blank_entry :: BrowserPoolContext where
  "blank_entry = \<lparr> browserContext = 0, busy = False, createdAt = 0, useCount = 0, ctx_id = 0 \<rparr>"

definition new_pool :: "ScrapeConfig \<Rightarrow> BrowserPool" where
  "new_pool config =
     \<lparr> browser = False, store = (\<lambda>r. blank_entry), next_ref = 0, contexts = [], available = [],
       waiters = [], pool_config = config, poolSize = concurrency config, nextContextId = 0,
       probing = [], resuming = [], recycling = [], recycled = [], holders = [] \<rparr>"

text \<open>\<open>createPoolContext\<close>, once \<open>createBrowserContext\<close> has returned a new context.\<close>

definition createPoolContext :: "int \<Rightarrow> BrowserPool \<Rightarrow> nat \<times> BrowserPool" where
  "createPoolContext now s =
     (let r = next_ref s in
      (r, s\<lparr> store := (store s)(r := \<lparr> browserContext = r, busy = False, createdAt = now,
                                         useCount = 0, ctx_id = nextContextId s \<rparr>),
             next_ref := Suc r,
             nextContextId := Suc (nextContextId s) \<rparr>))"

fun init_contexts :: "nat \<Rightarrow> int \<Rightarrow> BrowserPool \<Rightarrow> BrowserPool" where
  "init_contexts 0 now s = s"
| "init_contexts (Suc n) now s =
     (case createPoolContext now s of
        (r, s1) \<Rightarrow>
          init_contexts n now
            (s1\<lparr> contexts := AList.update (ctx_id (store s1 r)) r (contexts s1),
                 available := available s1 @ [r] \<rparr>))"

definition initialize :: "int \<Rightarrow> BrowserPool \<Rightarrow> BrowserPool" where
  "initialize now s = init_contexts (nat (poolSize s)) now (s\<lparr> browser := True \<rparr>)"

text \<open>
  \<open>poolCtx.useCount++; poolCtx.busy = true;\<close> and the context goes to caller \<open>c\<close>:
  the end of \<open>acquire\<close> and the body of a waiter callback.
\<close>

definition hand_out :: "nat \<Rightarrow> nat \<Rightarrow> BrowserPool \<Rightarrow> BrowserPool" where
  "hand_out c r s =
     s\<lparr> store := (store s)(r := (store s r)\<lparr> useCount := useCount (store s r) + 1, busy := True \<rparr>),
        holders := holders s @ [(c, browserContext (store s r))] \<rparr>"

text \<open>\<open>const waiter = this.waiters.shift(); if (waiter) waiter(x); else this.available.push(x);\<close>\<close>

definition give_back :: "nat \<Rightarrow> BrowserPool \<Rightarrow> BrowserPool" where
  "give_back r s =
     (case waiters s of
        [] \<Rightarrow> s\<lparr> available := available s @ [r] \<rparr>
      | w # ws \<Rightarrow> hand_out w r (s\<lparr> waiters := ws \<rparr>))"

text \<open>\<open>recycleContext\<close> when creating the new context succeeds.\<close>

definition recycleContext :: "nat \<Rightarrow> int \<Rightarrow> BrowserPool \<Rightarrow> BrowserPool" where
  "recycleContext oldCtx now s =
     (case createPoolContext now s of
        (fresh, s1) \<Rightarrow>
          (let s2 = s1\<lparr> store := (store s1)(fresh := (store s1 fresh)\<lparr> ctx_id := ctx_id (store s1 oldCtx) \<rparr>) \<rparr>
           in s2\<lparr> contexts := AList.update (ctx_id (store s2 oldCtx)) fresh (contexts s2) \<rparr>))"

text \<open>The loop of \<open>release\<close> over \<open>this.contexts.values()\<close>.\<close>

definition find_entry :: "BrowserPool \<Rightarrow> nat \<Rightarrow> nat option" where
  "find_entry s ctx =
     map_option snd (find (\<lambda>(k, r). browserContext (store s r) = ctx) (contexts s))"

definition release :: "nat \<Rightarrow> BrowserPool \<Rightarrow> BrowserPool" where
  "release ctx s =
     (case find_entry s ctx of
        None \<Rightarrow> s
      | Some r \<Rightarrow>
          (let s1 = s\<lparr> store := (store s)(r := (store s r)\<lparr> busy := False \<rparr>) \<rparr>;
               needsRecycle = (contextMaxUses (pool_config s1) > 0 \<and>
                               useCount (store s1 r) \<ge> contextMaxUses (pool_config s1))
           in if needsRecycle then s1\<lparr> recycling := recycling s1 @ [r] \<rparr>
              else give_back r s1))"

text \<open>Removing the first holder of a context from the log.\<close>

fun drop_holder :: "nat \<Rightarrow> (nat \<times> nat) list \<Rightarrow> (nat \<times> nat) list" where
  "drop_holder ctx [] = []"
| "drop_holder ctx (h # hs) = (if snd h = ctx then hs else h # drop_holder ctx hs)"

text \<open>
  The steps between suspension points. \<open>Acquire c\<close>: caller \<open>c\<close> calls \<open>acquire\<close>, which
  pops an entry or queues a waiter. \<open>ProbeOk c\<close>: its health check resolved.
  \<open>ProbeFail c ok now\<close>: its health check rejected and \<open>recycleContext\<close> ran; \<open>ok\<close> says
  whether the browser produced a new context (if not, \<open>acquire\<close> rejects).
  \<open>AcquireResume c\<close>: the rest of the \<open>catch\<close> block. \<open>Release ctx\<close>: a call of
  \<open>release\<close>. \<open>RecycleDone r ok now\<close>: the \<open>recycleContext\<close> that \<open>release\<close> started for
  entry \<open>r\<close> settled. \<open>RecycleThen r\<close>: its \<open>then\<close> callback.
\<close>

datatype pevent =
    Acquire nat
  | ProbeOk nat
  | ProbeFail nat bool int
  | AcquireResume nat
  | Release nat
  | RecycleDone nat bool int
  | RecycleThen nat

fun pstep :: "BrowserPool \<Rightarrow> pevent \<Rightarrow> BrowserPool" where
  "pstep s (Acquire c) =
     (if available s = [] then s\<lparr> waiters := waiters s @ [c] \<rparr>
      else s\<lparr> available := butlast (available s),
              probing := probing s @ [(c, last (available s))] \<rparr>)"
| "pstep s (ProbeOk c) =
     (case map_of (probing s) c of
        None \<Rightarrow> s
      | Some r \<Rightarrow> hand_out c r (s\<lparr> probing := remove1 (c, r) (probing s) \<rparr>))"
| "pstep s (ProbeFail c ok now) =
     (case map_of (probing s) c of
        None \<Rightarrow> s
      | Some r \<Rightarrow>
          (let s1 = s\<lparr> probing := remove1 (c, r) (probing s) \<rparr> in
           if browser s1 \<and> ok
           then (let s2 = recycleContext r now s1 in s2\<lparr> resuming := resuming s2 @ [(c, r)] \<rparr>)
           else s1))"
| "pstep s (AcquireResume c) =
     (case map_of (resuming s) c of
        None \<Rightarrow> s
      | Some r \<Rightarrow>
          (let s1 = s\<lparr> resuming := remove1 (c, r) (resuming s) \<rparr> in
           case map_of (contexts s1) (ctx_id (store s1 r)) of
             Some fresh \<Rightarrow> hand_out c fresh s1
           | None \<Rightarrow> hand_out c r s1))"
| "pstep s (Release ctx) = release ctx (s\<lparr> holders := drop_holder ctx (holders s) \<rparr>)"
| "pstep s (RecycleDone r ok now) =
     (if r \<in> set (recycling s)
      then (let s1 = s\<lparr> recycling := remove1 r (recycling s) \<rparr> in
            if browser s1 \<and> ok
            then (let s2 = recycleContext r now s1 in s2\<lparr> recycled := recycled s2 @ [r] \<rparr>)
            else s1)
      else s)"
| "pstep s (RecycleThen r) =
     (if r \<in> set (recycled s)
      then (let s1 = s\<lparr> recycled := remove1 r (recycled s) \<rparr> in
            case map_of (contexts s1) (ctx_id (store s1 r)) of
              None \<Rightarrow> s1
            | Some fresh \<Rightarrow> give_back fresh s1)
      else s)"

definition prun :: "BrowserPool \<Rightarrow> pevent list \<Rightarrow> BrowserPool" where
  "prun s evs = foldl pstep s evs"

text \<open>
  A trace follows the protocol when every \<open>Release ctx\<close> is made for a context that some
  caller holds at that moment.
\<close>

fun conforming :: "BrowserPool \<Rightarrow> pevent list \<Rightarrow> bool" where
  "conforming s [] = True"
| "conforming s (Release ctx # evs) =
     (List.member (map snd (holders s)) ctx \<and> conforming (pstep s (Release ctx)) evs)"
| "conforming s (e # evs) = conforming (pstep s e) evs"

subsection \<open>The pool invariant\<close>

text \<open>
  \<open>live\<close>: the entries that are available, under a health check or held.
  \<open>parked\<close>: the entries captured by a suspended recycle. The invariant says that every
  live entry is the one stored under its slot id, and that no two of these entries share
  a slot.
\<close>

definition slot :: "BrowserPool \<Rightarrow> nat \<Rightarrow> nat" where
  "slot s r = ctx_id (store s r)"

definition live :: "BrowserPool \<Rightarrow> nat list" where
  "live s = available s @ map snd (probing s) @ map snd (holders s)"

definition parked :: "BrowserPool \<Rightarrow> nat list" where
  "parked s = map snd (resuming s) @ recycling s @ recycled s"

definition pinv :: "BrowserPool \<Rightarrow> bool" where
  "pinv s \<longleftrightarrow>
     browser s \<and>
     (\<forall>r<next_ref s. browserContext (store s r) = r) \<and>
     distinct (map fst (contexts s)) \<and>
     (\<forall>k r. (k, r) \<in> set (contexts s) \<longrightarrow> r < next_ref s \<and> slot s r = k) \<and>
     (\<forall>r\<in>set (live s). (slot s r, r) \<in> set (contexts s)) \<and>
     (\<forall>r\<in>set (parked s). r < next_ref s \<and> slot s r \<in> fst ` set (contexts s)) \<and>
     distinct (map (slot s) (live s @ parked s))"

text \<open>The pool right after \<open>initialize\<close>: entry \<open>i\<close> sits in slot \<open>i\<close>, all are available.\<close>

definition initialized :: "nat \<Rightarrow> BrowserPool \<Rightarrow> bool" where
  "initialized n s \<longleftrightarrow>
     browser s \<and> next_ref s = n \<and> nextContextId s = n \<and>
     contexts s = map (\<lambda>i. (i, i)) [0..<n] \<and> available s = [0..<n] \<and>
     waiters s = [] \<and> probing s = [] \<and> resuming s = [] \<and> recycling s = [] \<and>
     recycled s = [] \<and> holders s = [] \<and>
     (\<forall>r<n. browserContext (store s r) = r \<and> ctx_id (store s r) = r)"

definition stray_trace :: "pevent list" where
  "stray_trace =
     [Acquire 0, ProbeOk 0, Release 1, Release 1, Acquire 1, Acquire 2, ProbeOk 1, ProbeOk 2]"

definition pool2_config :: ScrapeConfig where
  "pool2_config = DEFAULT_CONFIG\<lparr> concurrency := 2 \<rparr>"

definition busy_trace :: "pevent list" where
  "busy_trace =
     [Acquire 0, Acquire 1, Acquire 2, ProbeOk 0, ProbeFail 1 True 9, AcquireResume 1,
      Release 1, Release 2, Acquire 3, ProbeOk 3]"

definition pool1_config :: ScrapeConfig where
  "pool1_config = DEFAULT_CONFIG\<lparr> concurrency := 1, contextMaxUses := 1 \<rparr>"

definition once_used :: BrowserPool where
  "once_used = prun (initialize 7 (new_pool pool1_config)) [Acquire 0, ProbeOk 0]"

definition once_released :: BrowserPool where
  "once_released = prun (initialize 7 (new_pool pool1_config)) [Acquire 0, ProbeOk 0, Release 0]"

section \<open>The job queue (p-queue) as scrapeMany drives it\<close>

text \<open>
  \<open>this.queue\<close> is a \<open>PQueue\<close> of the p-queue package, constructed with
  \<open>{ concurrency }\<close> only. The package is a dependency, not part of the repository;
  the definitions follow its documented contract: \<open>add(fn, { priority })\<close> inserts the
  task behind every queued task of greater or equal priority (``operations with greater
  priority will be scheduled first'', equal priorities in insertion order, default 0) and
  then starts the head of the queue if fewer than \<open>concurrency\<close> tasks are pending; when
  a task settles, the pending count drops and the head of the queue is started. A task is
  named by the index of its job; \<open>q_started\<close> logs the order in which tasks start.
\<close>

record PQueue =
  q_concurrency :: int
  q_pending :: int
  q_queue :: "(int \<times> nat) list"
  q_started :: "nat list"

definition new_queue :: "int \<Rightarrow> PQueue" where
  "new_queue c = \<lparr> q_concurrency = c, q_pending = 0, q_queue = [], q_started = [] \<rparr>"

definition enqueue :: "int \<Rightarrow> nat \<Rightarrow> (int \<times> nat) list \<Rightarrow> (int \<times> nat) list" where
  "enqueue prio task q =
     takeWhile (\<lambda>e. fst e \<ge> prio) q @ [(prio, task)] @ dropWhile (\<lambda>e. fst e \<ge> prio) q"

definition tryToStartAnother :: "PQueue \<Rightarrow> PQueue" where
  "tryToStartAnother pq =
     (case q_queue pq of
        [] \<Rightarrow> pq
      | job # rest \<Rightarrow>
          if q_pending pq < q_concurrency pq
          then pq\<lparr> q_queue := rest, q_pending := q_pending pq + 1,
                   q_started := q_started pq @ [snd job] \<rparr>
          else pq)"

definition q_add :: "PQueue \<Rightarrow> int \<Rightarrow> nat \<Rightarrow> PQueue" where
  "q_add pq prio task = tryToStartAnother (pq\<lparr> q_queue := enqueue prio task (q_queue pq) \<rparr>)"

definition q_next :: "PQueue \<Rightarrow> PQueue" where
  "q_next pq = tryToStartAnother (pq\<lparr> q_pending := q_pending pq - 1 \<rparr>)"

text \<open>
  \<open>jobs.map((job) => this.queue.add(() => this.processJob(job), { priority: job.priority }))\<close>
  with \<open>priority: i\<close> for the job at index \<open>i\<close>, followed by \<open>k\<close> tasks settling.
\<close>

definition submit_batch :: "int \<Rightarrow> nat \<Rightarrow> PQueue" where
  "submit_batch c n = foldl (\<lambda>pq i. q_add pq (int i) i) (new_queue c) [0..<n]"

definition after_settling :: "nat \<Rightarrow> PQueue \<Rightarrow> PQueue" where
  "after_settling k pq = foldl (\<lambda>q u. q_next q) pq (replicate k ())"

section \<open>Scraper.scrapeStream\<close>

text \<open>
  The local variables of the generator, then what its consumer has seen. \<open>resolve\<close> is
  true while the variable \<open>resolve\<close> holds the resolver of the promise the loop awaits;
  \<open>finished\<close> is the variable \<open>done\<close>; \<open>returned\<close> is true once the loop has ended.
\<close>

record stream_state =
  results :: "ScrapeResult list"
  resolve :: bool
  finished :: bool
  pending :: int
  yielded :: "ScrapeResult list"
  returned :: bool

definition stream_init :: "string list \<Rightarrow> stream_state" where
  "stream_init urls =
     \<lparr> results = [], resolve = False, finished = False, pending = int (length urls),
       yielded = [], returned = False \<rparr>"

definition notify :: "stream_state \<Rightarrow> stream_state" where
  "notify s = (if resolve s then s\<lparr> resolve := False \<rparr> else s)"

text \<open>The result the \<open>catch\<close> callback pushes for a rejected task.\<close>

definition rejected_result :: "world \<Rightarrow> ScrapeJob \<Rightarrow> thrown \<Rightarrow> ScrapeResult" where
  "rejected_result W job err =
     \<lparr> res_id = job_id job, res_url = job_url job, markdown = [],
       metadata = emptyMetadata W (job_url job), timing = zero_timing,
       res_error = Some (String_of err) \<rparr>"

definition pushed_result :: "world \<Rightarrow> ScrapeJob \<Rightarrow> thrown + ScrapeResult \<Rightarrow> ScrapeResult" where
  "pushed_result W job outcome =
     (case outcome of Inr r \<Rightarrow> r | Inl err \<Rightarrow> rejected_result W job err)"

text \<open>
  The steps between suspension points. \<open>TaskSettled i outcome\<close>: \<open>processJob\<close> of job
  \<open>i\<close> settled with \<open>outcome\<close>, and the task body (or, after a rejection, the \<open>catch\<close>
  callback) pushes a result and notifies. \<open>TaskFinally\<close>: the \<open>finally\<close> callback of a
  settled task. \<open>ConsumerStep\<close>: one turn of the \<open>while\<close> loop, taken when the generator
  is neither suspended on its promise nor finished; the consumer asks for the next value
  as soon as it got one.
\<close>

datatype sevent =
    TaskSettled nat "thrown + ScrapeResult"
  | TaskFinally
  | ConsumerStep

fun sstep :: "world \<Rightarrow> ScrapeJob list \<Rightarrow> stream_state \<Rightarrow> sevent \<Rightarrow> stream_state" where
  "sstep W jobs s (TaskSettled i outcome) =
     notify (s\<lparr> results := results s @ [pushed_result W (jobs ! i) outcome] \<rparr>)"
| "sstep W jobs s TaskFinally =
     (let s1 = s\<lparr> pending := pending s - 1 \<rparr> in
      if pending s1 = 0 then notify (s1\<lparr> finished := True \<rparr>) else s1)"
| "sstep W jobs s ConsumerStep =
     (if resolve s \<or> returned s then s
      else if \<not> finished s \<or> results s \<noteq> []
      then (case results s of
              r # rest \<Rightarrow> s\<lparr> results := rest, yielded := yielded s @ [r] \<rparr>
            | [] \<Rightarrow> if \<not> finished s then s\<lparr> resolve := True \<rparr> else s)
      else s\<lparr> returned := True \<rparr>)"

definition srun :: "world \<Rightarrow> ScrapeJob list \<Rightarrow> stream_state \<Rightarrow> sevent list \<Rightarrow> stream_state" where
  "srun W jobs s evs = foldl (sstep W jobs) s evs"

text \<open>
  The traces \<open>n\<close> submitted jobs can produce: every job settles at most once, and a
  \<open>finally\<close> callback runs only for a task that has settled. \<open>st\<close> lists the jobs settled
  so far, \<open>f\<close> counts the callbacks run so far.
\<close>

fun stream_trace :: "nat \<Rightarrow> nat list \<Rightarrow> nat \<Rightarrow> sevent list \<Rightarrow> bool" where
  "stream_trace n st f [] = True"
| "stream_trace n st f (TaskSettled i outcome # evs) =
     (i < n \<and> \<not> List.member st i \<and> stream_trace n (i # st) f evs)"
| "stream_trace n st f (TaskFinally # evs) = (f < length st \<and> stream_trace n st (Suc f) evs)"
| "stream_trace n st f (ConsumerStep # evs) = stream_trace n st f evs"

text \<open>What the tasks of a trace push, in the order they settle.\<close>

fun pushed :: "world \<Rightarrow> ScrapeJob list \<Rightarrow> sevent list \<Rightarrow> ScrapeResult list" where
  "pushed W jobs [] = []"
| "pushed W jobs (TaskSettled i outcome # evs) = pushed_result W (jobs ! i) outcome # pushed W jobs evs"
| "pushed W jobs (e # evs) = pushed W jobs evs"

fun settles :: "sevent list \<Rightarrow> nat" where
  "settles [] = 0"
| "settles (TaskSettled i outcome # evs) = Suc (settles evs)"
| "settles (e # evs) = settles evs"

fun finallies :: "sevent list \<Rightarrow> nat" where
  "finallies [] = 0"
| "finallies (TaskFinally # evs) = Suc (finallies evs)"
| "finallies (e # evs) = finallies evs"

text \<open>The jobs the \<open>for\<close> loop of \<open>scrapeStream\<close> creates; they carry no priority.\<close>

definition stream_jobs :: "(nat \<Rightarrow> string) \<Rightarrow> string list \<Rightarrow> PartialConfig option \<Rightarrow> ScrapeJob list" where
  "stream_jobs uuid urls ov =
     map (\<lambda>(i, url). \<lparr> job_url = url, job_id = uuid i, job_priority = None, job_config = ov \<rparr>)
       (enumerate 0 urls)"

subsection \<open>Delivery of results\<close>

fun settled_jobs :: "sevent list \<Rightarrow> nat list" where
  "settled_jobs [] = []"
| "settled_jobs (TaskSettled i outcome # evs) = i # settled_jobs evs"
| "settled_jobs (e # evs) = settled_jobs evs"

definition sinv :: "nat \<Rightarrow> nat list \<Rightarrow> nat \<Rightarrow> ScrapeResult list \<Rightarrow> stream_state \<Rightarrow> bool" where
  "sinv n st f lg s \<longleftrightarrow>
     pending s = int n - int f \<and>
     (finished s \<longleftrightarrow> f = n \<and> 0 < n) \<and>
     yielded s @ results s = lg \<and>
     f \<le> length st \<and> distinct st \<and> set st \<subseteq> {..<n} \<and>
     (resolve s \<longrightarrow> results s = [] \<and> \<not> finished s \<and> \<not> returned s) \<and>
     (returned s \<longrightarrow> finished s \<and> results s = [])"

section \<open>Properties: The context pool (browser-pool.ts)\<close>

subsection \<open>The pool invariant\<close>

lemma distinct_mset_le:
  assumes "mset ys \<subseteq># mset xs" and "distinct xs"
  shows "distinct ys"
proof -
  have "count (mset ys) a \<le> 1" for a
    using assms mset_subset_eq_count [OF assms(1), of a]
    by (metis distinct_count_atmost_1 le_trans order_refl zero_le_one)
  then show ?thesis
    by (metis distinct_count_atmost_1 le_antisym not_less_eq_eq count_greater_eq_one_iff count_mset_0_iff le_zero_eq nat_le_linear One_nat_def)
qed

lemma pinvD:
  assumes "pinv s"
  shows "browser s"
    and "\<And>r. r < next_ref s \<Longrightarrow> browserContext (store s r) = r"
    and "distinct (map fst (contexts s))"
    and "\<And>k r. (k, r) \<in> set (contexts s) \<Longrightarrow> r < next_ref s \<and> slot s r = k"
    and "\<And>r. r \<in> set (live s) \<Longrightarrow> (slot s r, r) \<in> set (contexts s)"
    and "\<And>r. r \<in> set (parked s) \<Longrightarrow> r < next_ref s \<and> slot s r \<in> fst ` set (contexts s)"
    and "distinct (map (slot s) (live s @ parked s))"
  using assms unfolding pinv_def by blast+

lemma pinv_live_lt: "pinv s \<Longrightarrow> r \<in> set (live s) \<Longrightarrow> r < next_ref s"
  using pinvD(4,5) by blast

lemma pinv_live_ctx: "pinv s \<Longrightarrow> r \<in> set (live s) \<Longrightarrow> browserContext (store s r) = r"
  using pinvD(2) pinv_live_lt by blast

text \<open>A step that creates no context: the owned entries are moved or dropped.\<close>

lemma pinv_moved:
  assumes p: "pinv s"
    and same: "browser s' = browser s" "next_ref s' = next_ref s" "contexts s' = contexts s"
    and st: "\<And>r. browserContext (store s' r) = browserContext (store s r)"
       "\<And>r. ctx_id (store s' r) = ctx_id (store s r)"
    and lv: "\<And>r. r \<in> set (live s') \<Longrightarrow> (slot s r, r) \<in> set (contexts s)"
    and pk: "\<And>r. r \<in> set (parked s') \<Longrightarrow> r < next_ref s \<and> slot s r \<in> fst ` set (contexts s)"
    and sub: "mset (map (slot s) (live s' @ parked s')) \<subseteq># mset (map (slot s) (live s @ parked s))"
  shows "pinv s'"
proof -
  have sl: "slot s' = slot s" using st(2) by (simp add: slot_def fun_eq_iff)
  have "distinct (map (slot s) (live s' @ parked s'))"
    using distinct_mset_le [OF sub pinvD(7) [OF p]] .
  with p same st lv pk sl show ?thesis
    unfolding pinv_def by simp
qed

lemma pinv_mem:
  assumes "pinv s"
  shows "r \<in> set (available s) \<Longrightarrow> (slot s r, r) \<in> set (contexts s)"
    and "(c, r) \<in> set (probing s) \<Longrightarrow> (slot s r, r) \<in> set (contexts s)"
    and "(c, r) \<in> set (holders s) \<Longrightarrow> (slot s r, r) \<in> set (contexts s)"
    and "(c, r) \<in> set (resuming s) \<Longrightarrow> r < next_ref s"
    and "(c, r) \<in> set (resuming s) \<Longrightarrow> slot s r \<in> fst ` set (contexts s)"
    and "r \<in> set (recycling s) \<Longrightarrow> r < next_ref s"
    and "r \<in> set (recycling s) \<Longrightarrow> slot s r \<in> fst ` set (contexts s)"
    and "r \<in> set (recycled s) \<Longrightarrow> r < next_ref s"
    and "r \<in> set (recycled s) \<Longrightarrow> slot s r \<in> fst ` set (contexts s)"
  using pinvD(5) [OF assms, of r] pinvD(6) [OF assms, of r]
  by (force simp: live_def parked_def)+

lemma pinv_Acquire: "pinv s \<Longrightarrow> pinv (pstep s (Acquire c))"
proof (cases "available s = []")
  case True
  assume p: "pinv s"
  show ?thesis
    by (rule pinv_moved [OF p])
      (use True in \<open>auto simp: live_def parked_def intro: pinv_mem [OF p]\<close>)
next
  case False
  assume p: "pinv s"
  have av: "available s = butlast (available s) @ [last (available s)]"
    using False by simp
  have m: "mset (available s) = mset (butlast (available s)) + {#last (available s)#}"
    by (subst av) simp
  have sets: "set (butlast (available s)) \<subseteq> set (available s)" "last (available s) \<in> set (available s)"
    using False by (auto dest: in_set_butlastD)
  show ?thesis
    by (rule pinv_moved [OF p])
      (use False sets m in \<open>auto simp: live_def parked_def intro: pinv_mem [OF p]\<close>)
qed

lemma mset_snd_remove1:
  "(c, r) \<in> set ps \<Longrightarrow> add_mset r (mset (map snd (remove1 (c, r) ps))) = mset (map snd ps)"
  by (induction ps) auto

text \<open>A step that moves entries between places, or drops them.\<close>

lemma pinv_shuffle:
  assumes p: "pinv s"
    and same: "browser s' = browser s" "next_ref s' = next_ref s" "contexts s' = contexts s"
    and st: "\<And>r. browserContext (store s' r) = browserContext (store s r)"
       "\<And>r. ctx_id (store s' r) = ctx_id (store s r)"
    and lv: "mset (live s') \<subseteq># mset (live s)"
    and pk: "mset (live s') + mset (parked s') \<subseteq># mset (live s) + mset (parked s)"
  shows "pinv s'"
proof (rule pinv_moved [OF p same st])
  fix r assume "r \<in> set (live s')"
  then have "r \<in> set (live s)" using set_mset_mono [OF lv] by auto
  then show "(slot s r, r) \<in> set (contexts s)" by (rule pinvD(5) [OF p])
next
  fix r assume "r \<in> set (parked s')"
  then have "r \<in> set (live s) \<union> set (parked s)" using set_mset_mono [OF pk] by auto
  then show "r < next_ref s \<and> slot s r \<in> fst ` set (contexts s)"
    using pinvD(4,5,6) [OF p] by (force simp: image_iff)
next
  have "image_mset (slot s) (mset (live s') + mset (parked s'))
          \<subseteq># image_mset (slot s) (mset (live s) + mset (parked s))"
    using pk by (rule image_mset_subseteq_mono)
  then show "mset (map (slot s) (live s' @ parked s')) \<subseteq># mset (map (slot s) (live s @ parked s))"
    by simp
qed

lemma pinv_ProbeOk: "pinv s \<Longrightarrow> pinv (pstep s (ProbeOk c))"
proof (cases "map_of (probing s) c")
  case None
  then show "pinv s \<Longrightarrow> ?thesis" by simp
next
  case (Some r)
  assume p: "pinv s"
  from Some have mem: "(c, r) \<in> set (probing s)" by (rule map_of_SomeD)
  then have "r \<in> set (live s)" by (force simp: live_def)
  then have ctx: "browserContext (store s r) = r" by (rule pinv_live_ctx [OF p])
  let ?s = "pstep s (ProbeOk c)"
  have l: "mset (live ?s) = mset (live s)"
    using Some ctx mset_snd_remove1 [OF mem] by (simp add: live_def hand_out_def)
  have k: "parked ?s = parked s"
    using Some by (simp add: parked_def hand_out_def)
  show ?thesis
    by (rule pinv_shuffle [OF p]) (use Some l k in \<open>auto simp: hand_out_def\<close>)
qed

lemma img_remove1:
  "(c, r) \<in> set ps \<Longrightarrow> image_mset snd (mset ps - {#(c, r)#}) = image_mset snd (mset ps) - {#r#}"
  by (simp add: image_mset_Diff)

lemma img_drop_holder:
  "image_mset snd (mset (drop_holder ctx hs)) = image_mset snd (mset hs) - {#ctx#}"
  by (induction hs) auto

lemma count_img_pos: "(c, r) \<in> set ps \<Longrightarrow> 0 < count (image_mset snd (mset ps)) r"
  by (force simp: count_greater_zero_iff)

lemma find_SomeD:
  "find P xs = Some x \<Longrightarrow> P x" "find P xs = Some x \<Longrightarrow> x \<in> set xs"
  by (induction xs) (auto split: if_splits)

lemma find_entry_held:
  assumes p: "pinv s" and h: "ctx \<in> snd ` set (holders s)"
  shows "find_entry s ctx = Some ctx"
proof -
  from h have lv: "ctx \<in> set (live s)" by (auto simp: live_def)
  have own: "browserContext (store s r) = r" if "(k, r) \<in> set (contexts s)" for k r
    using pinvD(2,4) [OF p] that by blast
  have "(slot s ctx, ctx) \<in> set (contexts s)" using pinvD(5) [OF p lv] .
  moreover have "browserContext (store s ctx) = ctx" using pinv_live_ctx [OF p lv] .
  ultimately have "\<exists>x\<in>set (contexts s). (\<lambda>(k, r). browserContext (store s r) = ctx) x"
    by force
  then obtain k r where f: "find (\<lambda>(k, r). browserContext (store s r) = ctx) (contexts s) = Some (k, r)"
    by (cases "find (\<lambda>(k, r). browserContext (store s r) = ctx) (contexts s)")
       (auto simp: find_None_iff)
  have "(k, r) \<in> set (contexts s)" using find_SomeD(2) [OF f] .
  moreover have "browserContext (store s r) = ctx" using find_SomeD(1) [OF f] by simp
  ultimately have "r = ctx" using own [of k r] by simp
  with f show ?thesis by (simp add: find_entry_def)
qed

lemma pinv_Release:
  assumes p: "pinv s" and h: "ctx \<in> snd ` set (holders s)"
  shows "pinv (pstep s (Release ctx))"
proof -
  let ?s0 = "s\<lparr> holders := drop_holder ctx (holders s) \<rparr>"
  have fe: "find_entry ?s0 ctx = Some ctx"
    using find_entry_held [OF p h] by (simp add: find_entry_def)
  have lv: "ctx \<in> set (live s)" using h by (auto simp: live_def)
  have ctx: "browserContext (store s ctx) = ctx" using pinv_live_ctx [OF p lv] .
  from h have pos: "0 < count (image_mset snd (mset (holders s))) ctx"
    by (auto simp: count_img_pos)
  let ?s = "pstep s (Release ctx)"
  have same: "browser ?s = browser s" "next_ref ?s = next_ref s" "contexts ?s = contexts s"
    "\<And>r. browserContext (store ?s r) = browserContext (store s r)"
    "\<And>r. ctx_id (store ?s r) = ctx_id (store s r)"
    using fe by (auto simp: release_def give_back_def hand_out_def Let_def split: list.splits)
  have l: "mset (live ?s) \<subseteq># mset (live s)"
    using fe ctx pos
    by (auto simp: release_def give_back_def hand_out_def Let_def live_def img_drop_holder
        subseteq_mset_def split: list.splits)
  have k: "mset (live ?s) + mset (parked ?s) \<subseteq># mset (live s) + mset (parked s)"
    using fe ctx pos
    by (auto simp: release_def give_back_def hand_out_def Let_def live_def parked_def img_drop_holder
        subseteq_mset_def split: list.splits)
  show ?thesis by (rule pinv_shuffle [OF p same l k])
qed

lemma pinv_ProbeFail_no:
  assumes p: "pinv s" and "\<not> ok"
  shows "pinv (pstep s (ProbeFail c ok now))"
proof (cases "map_of (probing s) c")
  case None
  with p show ?thesis by simp
next
  case (Some r)
  from Some have mem: "(c, r) \<in> set (probing s)" by (rule map_of_SomeD)
  show ?thesis
    by (rule pinv_shuffle [OF p])
      (use Some assms(2) in \<open>auto simp: live_def parked_def img_remove1 [OF mem] subseteq_mset_def\<close>)
qed

lemma pinv_RecycleDone_no:
  assumes p: "pinv s" and "\<not> ok"
  shows "pinv (pstep s (RecycleDone r ok now))"
proof (cases "r \<in> set (recycling s)")
  case False
  with p show ?thesis by simp
next
  case True
  show ?thesis
    by (rule pinv_shuffle [OF p])
      (use True assms(2) in \<open>auto simp: live_def parked_def subseteq_mset_def\<close>)
qed

lemma distinct_map_other:
  assumes "distinct (map f xs)" and "y \<in># mset xs - {#x#}" and "x \<in> set xs"
  shows "f y \<noteq> f x"
proof -
  from assms(3) obtain as bs where xs: "xs = as @ x # bs" by (meson split_list)
  with assms(2) have "y \<in> set as \<union> set bs" by auto
  with assms(1) xs show ?thesis by (auto simp: image_iff)
qed

lemma pinv_owned_lt:
  assumes "pinv s" and "r \<in> set (live s @ parked s)"
  shows "r < next_ref s"
  using assms pinv_live_lt [of s r] pinvD(6) [of s r] by auto

lemma pinv_owned_key:
  assumes "pinv s" and "r \<in> set (live s @ parked s)"
  shows "slot s r \<in> fst ` set (contexts s)"
  using assms pinvD(5) [of s r] pinvD(6) [of s r] by (force simp: image_iff)

text \<open>A step through \<open>recycleContext\<close> for an owned entry \<open>r\<close>.\<close>

lemma pinv_recycled:
  assumes p: "pinv s"
    and r: "r \<in> set (live s @ parked s)"
    and same: "browser s' = browser s" "next_ref s' = Suc (next_ref s)"
      "contexts s' = AList.update (slot s r) (next_ref s) (contexts s)"
    and st: "\<And>x. x \<noteq> next_ref s \<Longrightarrow> store s' x = store s x"
      "browserContext (store s' (next_ref s)) = next_ref s"
      "ctx_id (store s' (next_ref s)) = slot s r"
    and lv: "mset (live s') \<subseteq># mset (live s @ parked s) - {#r#}"
      "mset (live s') \<subseteq># mset (live s)"
    and ow: "mset (live s' @ parked s') \<subseteq># mset (live s @ parked s)"
  shows "pinv s'"
proof -
  let ?n = "next_ref s"
  have old: "slot s' x = slot s x" if "x < ?n" for x
    using that st(1) [of x] by (simp add: slot_def)
  have owned_lt: "x < ?n" if "x \<in> set (live s' @ parked s')" for x
    using that set_mset_mono [OF ow] pinv_owned_lt [OF p] by auto
  have dk: "distinct (map fst (contexts s))" using pinvD(3) [OF p] .
  have dk': "distinct (map fst (contexts s'))"
    using dk by (simp add: same(3) distinct_update)
  have mem: "(k, x) \<in> set (contexts s') \<longleftrightarrow>
      (if k = slot s r then x = ?n else (k, x) \<in> set (contexts s))" for k x
  proof -
    have "(k, x) \<in> set (contexts s') \<longleftrightarrow> map_of (contexts s') k = Some x"
      using map_of_eq_Some_iff [OF dk'] by blast
    also have "\<dots> \<longleftrightarrow> ((map_of (contexts s))(slot s r \<mapsto> ?n)) k = Some x"
      by (simp only: same(3) update_conv')
    also have "\<dots> \<longleftrightarrow> (if k = slot s r then x = ?n else map_of (contexts s) k = Some x)"
      by auto
    also have "\<dots> \<longleftrightarrow> (if k = slot s r then x = ?n else (k, x) \<in> set (contexts s))"
      using map_of_eq_Some_iff [OF dk] by simp
    finally show ?thesis .
  qed
  have keys: "fst ` set (contexts s) \<subseteq> fst ` set (contexts s')"
  proof
    fix k assume "k \<in> fst ` set (contexts s)"
    then obtain x where "(k, x) \<in> set (contexts s)" by auto
    then have "(k, if k = slot s r then ?n else x) \<in> set (contexts s')"
      by (simp add: mem)
    then show "k \<in> fst ` set (contexts s')" by (rule rev_image_eqI) simp
  qed
  have a: "\<forall>x<next_ref s'. browserContext (store s' x) = x"
    using pinvD(2) [OF p] st(1,2) by (auto simp: same(2) less_Suc_eq)
  have b: "\<forall>k x. (k, x) \<in> set (contexts s') \<longrightarrow> x < next_ref s' \<and> slot s' x = k"
  proof (intro allI impI)
    fix k x assume "(k, x) \<in> set (contexts s')"
    then consider "k = slot s r" "x = ?n" | "(k, x) \<in> set (contexts s)"
      by (auto simp: mem split: if_splits)
    then show "x < next_ref s' \<and> slot s' x = k"
    proof cases
      case 1 then show ?thesis by (simp add: same(2) slot_def st(3))
    next
      case 2
      then have "x < ?n" "slot s x = k" using pinvD(4) [OF p] by blast+
      then show ?thesis using old by (simp add: same(2))
    qed
  qed
  have c: "\<forall>x\<in>set (live s'). (slot s' x, x) \<in> set (contexts s')"
  proof
    fix x assume x: "x \<in> set (live s')"
    then have xl: "x \<in> set (live s)" using set_mset_mono [OF lv(2)] by auto
    from x have "x \<in># mset (live s @ parked s) - {#r#}"
      using mset_subset_eqD [OF lv(1)] by simp
    then have ne: "slot s x \<noteq> slot s r"
      using distinct_map_other [OF pinvD(7) [OF p] _ r] by blast
    have "x < ?n" using pinv_live_lt [OF p xl] .
    then have "slot s' x = slot s x" by (rule old)
    with ne pinvD(5) [OF p xl] show "(slot s' x, x) \<in> set (contexts s')"
      by (simp add: mem)
  qed
  have d: "\<forall>x\<in>set (parked s'). x < next_ref s' \<and> slot s' x \<in> fst ` set (contexts s')"
  proof
    fix x assume x: "x \<in> set (parked s')"
    then have lt: "x < ?n" using owned_lt by simp
    from x have "x \<in> set (live s @ parked s)" using set_mset_mono [OF ow] by auto
    then have "slot s x \<in> fst ` set (contexts s)" by (rule pinv_owned_key [OF p])
    then have "slot s x \<in> fst ` set (contexts s')" using keys by blast
    with lt old show "x < next_ref s' \<and> slot s' x \<in> fst ` set (contexts s')"
      by (simp add: same(2))
  qed
  have m: "map (slot s') (live s' @ parked s') = map (slot s) (live s' @ parked s')"
    using owned_lt old by (simp only: map_eq_conv) blast
  have e0: "distinct (map (slot s) (live s' @ parked s'))"
  proof (rule distinct_mset_le [OF _ pinvD(7) [OF p]])
    show "mset (map (slot s) (live s' @ parked s')) \<subseteq># mset (map (slot s) (live s @ parked s))"
      using image_mset_subseteq_mono [OF ow, of "slot s"] by simp
  qed
  have e: "distinct (map (slot s') (live s' @ parked s'))"
    unfolding m by (rule e0)
  from a b c d e pinvD(1) [OF p] dk' show ?thesis
    unfolding pinv_def by (simp add: same(1))
qed

lemma recycle_fields:
  "browser (recycleContext r now s) = browser s"
  "next_ref (recycleContext r now s) = Suc (next_ref s)"
  "available (recycleContext r now s) = available s"
  "waiters (recycleContext r now s) = waiters s"
  "probing (recycleContext r now s) = probing s"
  "resuming (recycleContext r now s) = resuming s"
  "recycling (recycleContext r now s) = recycling s"
  "recycled (recycleContext r now s) = recycled s"
  "holders (recycleContext r now s) = holders s"
  "pool_config (recycleContext r now s) = pool_config s"
  by (simp_all add: recycleContext_def createPoolContext_def Let_def)

lemma recycle_store:
  "x \<noteq> next_ref s \<Longrightarrow> store (recycleContext r now s) x = store s x"
  "r \<noteq> next_ref s \<Longrightarrow> store (recycleContext r now s) (next_ref s) =
     \<lparr> browserContext = next_ref s, busy = False, createdAt = now, useCount = 0,
       ctx_id = ctx_id (store s r) \<rparr>"
  "r \<noteq> next_ref s \<Longrightarrow>
     contexts (recycleContext r now s) = AList.update (ctx_id (store s r)) (next_ref s) (contexts s)"
  by (simp_all add: recycleContext_def createPoolContext_def Let_def)

lemma pinv_ProbeFail_ok:
  assumes p: "pinv s"
  shows "pinv (pstep s (ProbeFail c True now))"
proof (cases "map_of (probing s) c")
  case None
  with p show ?thesis by simp
next
  case (Some r)
  from Some have mem: "(c, r) \<in> set (probing s)" by (rule map_of_SomeD)
  then have own: "r \<in> set (live s @ parked s)" by (force simp: live_def)
  then have ne: "r \<noteq> next_ref s" using pinv_owned_lt [OF p] by blast
  let ?s1 = "s\<lparr> probing := remove1 (c, r) (probing s) \<rparr>"
  have ne1: "r \<noteq> next_ref ?s1" using ne by simp
  have br: "browser s" using pinvD(1) [OF p] .
  have eq: "pstep s (ProbeFail c True now) =
      (recycleContext r now ?s1)\<lparr> resuming := resuming (recycleContext r now ?s1) @ [(c, r)] \<rparr>"
    using Some br by (simp add: Let_def)
  from count_img_pos [OF mem]
  obtain n where pos: "count (image_mset snd (mset (probing s))) r = Suc n"
    using gr0_implies_Suc by blast
  note rs = recycle_store(2,3) [OF ne1, simplified]
  show ?thesis
    unfolding eq
    by (rule pinv_recycled [OF p own])
      (use pos in \<open>auto simp: recycle_fields recycle_store(1) rs
          slot_def live_def parked_def img_remove1 [OF mem] subseteq_mset_def\<close>)
qed

lemma pinv_RecycleDone_ok:
  assumes p: "pinv s"
  shows "pinv (pstep s (RecycleDone r True now))"
proof (cases "r \<in> set (recycling s)")
  case False
  with p show ?thesis by simp
next
  case True
  then have own: "r \<in> set (live s @ parked s)" by (simp add: parked_def)
  then have ne: "r \<noteq> next_ref s" using pinv_owned_lt [OF p] by blast
  let ?s1 = "s\<lparr> recycling := remove1 r (recycling s) \<rparr>"
  have ne1: "r \<noteq> next_ref ?s1" using ne by simp
  have br: "browser s" using pinvD(1) [OF p] .
  have eq: "pstep s (RecycleDone r True now) =
      (recycleContext r now ?s1)\<lparr> recycled := recycled (recycleContext r now ?s1) @ [r] \<rparr>"
    using True br by (simp add: Let_def)
  from True obtain n where pos: "count (mset (recycling s)) r = Suc n"
    using gr0_implies_Suc [of "count (mset (recycling s)) r"] by auto
  note rs = recycle_store(2,3) [OF ne1, simplified]
  show ?thesis
    unfolding eq
    by (rule pinv_recycled [OF p own])
      (use pos in \<open>auto simp: recycle_fields recycle_store(1) rs
          slot_def live_def parked_def subseteq_mset_def\<close>)
qed

lemma pinv_fresh:
  assumes p: "pinv s" and r: "r \<in> set (parked s)"
  obtains f where "map_of (contexts s) (slot s r) = Some f" "(slot s r, f) \<in> set (contexts s)"
    "browserContext (store s f) = f" "slot s f = slot s r"
proof -
  from pinvD(6) [OF p r] obtain f where f: "(slot s r, f) \<in> set (contexts s)" by force
  then have "map_of (contexts s) (slot s r) = Some f"
    using pinvD(3) [OF p] by simp
  moreover have "browserContext (store s f) = f" "slot s f = slot s r"
    using pinvD(2,4) [OF p] f by blast+
  ultimately show ?thesis using f that by blast
qed

lemma mset_slot_remove1:
  "(c, r) \<in> set ps \<Longrightarrow>
     add_mset (g r) (mset (map (g \<circ> snd) (remove1 (c, r) ps))) = mset (map (g \<circ> snd) ps)"
  by (induction ps) auto

lemma mset_slot_remove1':
  "r \<in> set xs \<Longrightarrow> add_mset (g r) (mset (map g (remove1 r xs))) = mset (map g xs)"
  by (induction xs) auto

lemma pinv_AcquireResume:
  assumes p: "pinv s"
  shows "pinv (pstep s (AcquireResume c))"
proof (cases "map_of (resuming s) c")
  case None
  with p show ?thesis by simp
next
  case (Some r)
  from Some have mem: "(c, r) \<in> set (resuming s)" by (rule map_of_SomeD)
  then have "r \<in> set (parked s)" by (force simp: parked_def)
  from pinv_fresh [OF p this] obtain f where
    f: "map_of (contexts s) (slot s r) = Some f" "(slot s r, f) \<in> set (contexts s)"
      "browserContext (store s f) = f" "slot s f = slot s r" .
  let ?s = "pstep s (AcquireResume c)"
  have eq: "?s = hand_out c f (s\<lparr> resuming := remove1 (c, r) (resuming s) \<rparr>)"
    using Some f(1) by (simp add: slot_def)
  have lv: "live ?s = live s @ [f]"
    unfolding eq using f(3) by (simp add: live_def hand_out_def)
  have pk: "parked ?s = map snd (remove1 (c, r) (resuming s)) @ recycling s @ recycled s"
    unfolding eq by (simp add: parked_def hand_out_def)
  have sub: "mset (map (slot s) (live ?s @ parked ?s)) = mset (map (slot s) (live s @ parked s))"
    unfolding lv pk using mset_slot_remove1 [OF mem, of "slot s"] f(4)
    by (simp add: parked_def)
  have same: "browser ?s = browser s" "next_ref ?s = next_ref s" "contexts ?s = contexts s"
    "\<And>x. browserContext (store ?s x) = browserContext (store s x)"
    "\<And>x. ctx_id (store ?s x) = ctx_id (store s x)"
    unfolding eq by (simp_all add: hand_out_def)
  show ?thesis
  proof (rule pinv_moved [OF p same])
    show "mset (map (slot s) (live ?s @ parked ?s)) \<subseteq># mset (map (slot s) (live s @ parked s))"
      using sub by simp
  next
    fix x assume "x \<in> set (live ?s)"
    then show "(slot s x, x) \<in> set (contexts s)"
      unfolding lv using pinvD(5) [OF p] f(2,4) by auto
  next
    fix x assume "x \<in> set (parked ?s)"
    then have "x \<in> set (parked s)"
      unfolding pk using set_remove1_subset by (fastforce simp: parked_def)
    then show "x < next_ref s \<and> slot s x \<in> fst ` set (contexts s)"
      by (rule pinvD(6) [OF p])
  qed
qed

lemma pinv_RecycleThen:
  assumes p: "pinv s"
  shows "pinv (pstep s (RecycleThen r))"
proof (cases "r \<in> set (recycled s)")
  case False
  with p show ?thesis by simp
next
  case True
  then have "r \<in> set (parked s)" by (simp add: parked_def)
  from pinv_fresh [OF p this] obtain f where
    f: "map_of (contexts s) (slot s r) = Some f" "(slot s r, f) \<in> set (contexts s)"
      "browserContext (store s f) = f" "slot s f = slot s r" .
  let ?s = "pstep s (RecycleThen r)"
  have eq: "?s = give_back f (s\<lparr> recycled := remove1 r (recycled s) \<rparr>)"
    using True f(1) by (simp add: slot_def)
  have lv: "mset (live ?s) = add_mset f (mset (live s))"
    unfolding eq using f(3) by (simp add: live_def give_back_def hand_out_def split: list.splits)
  have pk: "parked ?s = map snd (resuming s) @ recycling s @ remove1 r (recycled s)"
    unfolding eq by (simp add: parked_def give_back_def hand_out_def split: list.splits)
  have "mset (map (slot s) (live ?s)) = add_mset (slot s r) (mset (map (slot s) (live s)))"
    using arg_cong [OF lv, of "image_mset (slot s)"] f(4) by simp
  then have sub: "mset (map (slot s) (live ?s @ parked ?s)) = mset (map (slot s) (live s @ parked s))"
    unfolding pk using mset_slot_remove1' [OF True, of "slot s"]
    by (simp add: parked_def)
  have same: "browser ?s = browser s" "next_ref ?s = next_ref s" "contexts ?s = contexts s"
    "\<And>x. browserContext (store ?s x) = browserContext (store s x)"
    "\<And>x. ctx_id (store ?s x) = ctx_id (store s x)"
    unfolding eq by (simp_all add: give_back_def hand_out_def split: list.splits)
  show ?thesis
  proof (rule pinv_moved [OF p same])
    show "mset (map (slot s) (live ?s @ parked ?s)) \<subseteq># mset (map (slot s) (live s @ parked s))"
      using sub by simp
  next
    fix x assume "x \<in> set (live ?s)"
    then have "x \<in># add_mset f (mset (live s))" using lv by (metis set_mset_mset)
    then show "(slot s x, x) \<in> set (contexts s)"
      using pinvD(5) [OF p] f(2,4) by auto
  next
    fix x assume "x \<in> set (parked ?s)"
    then have "x \<in> set (parked s)"
      unfolding pk using set_remove1_subset by (fastforce simp: parked_def)
    then show "x < next_ref s \<and> slot s x \<in> fst ` set (contexts s)"
      by (rule pinvD(6) [OF p])
  qed
qed

lemma update_new_key: "k \<notin> fst ` set al \<Longrightarrow> AList.update k v al = al @ [(k, v)]"
  by (induction al) auto

lemma init_contexts_initialized:
  "initialized n s \<Longrightarrow> initialized (n + m) (init_contexts m now s)"
proof (induction m arbitrary: n s)
  case 0
  then show ?case by simp
next
  case (Suc m)
  let ?s1 = "snd (createPoolContext now s)"
  let ?s2 = "?s1\<lparr> contexts := AList.update (ctx_id (store ?s1 n)) n (contexts ?s1),
                    available := available ?s1 @ [n] \<rparr>"
  have r: "fst (createPoolContext now s) = n"
    using Suc.prems by (simp add: createPoolContext_def initialized_def Let_def)
  have "n \<notin> fst ` set (map (\<lambda>i. (i, i)) [0..<n])" by (auto simp: image_iff)
  then have up: "AList.update n n (map (\<lambda>i. (i, i)) [0..<n]) = map (\<lambda>i. (i, i)) [0..<Suc n]"
    by (simp add: update_new_key)
  have "initialized (Suc n) ?s2"
    using Suc.prems up by (auto simp: createPoolContext_def initialized_def Let_def less_Suc_eq)
  from Suc.IH [OF this] show ?case
    using r by (simp add: case_prod_beta)
qed

lemma initialized_initialize:
  "initialized (nat (concurrency config)) (initialize now (new_pool config))"
proof -
  have "initialized 0 ((new_pool config)\<lparr> browser := True \<rparr>)"
    by (simp add: initialized_def new_pool_def)
  from init_contexts_initialized [OF this, of "nat (concurrency config)" now]
  show ?thesis by (simp add: initialize_def new_pool_def)
qed

lemma initialized_pinv: "initialized n s \<Longrightarrow> pinv s"
  by (auto simp: initialized_def pinv_def live_def parked_def slot_def distinct_map comp_def
      inj_on_def map_idI)

lemma pinv_step:
  assumes "pinv s" and "\<And>ctx. e = Release ctx \<Longrightarrow> ctx \<in> snd ` set (holders s)"
  shows "pinv (pstep s e)"
proof (cases e)
  case (ProbeFail c ok now)
  then show ?thesis
    using pinv_ProbeFail_ok [OF assms(1)] pinv_ProbeFail_no [OF assms(1)] by (cases ok) auto
next
  case (RecycleDone r ok now)
  then show ?thesis
    using pinv_RecycleDone_ok [OF assms(1)] pinv_RecycleDone_no [OF assms(1)] by (cases ok) auto
qed (use assms in \<open>simp_all only: pinv_Acquire pinv_ProbeOk pinv_AcquireResume pinv_Release
    pinv_RecycleThen\<close>)

lemma pinv_run: "pinv s \<Longrightarrow> conforming s evs \<Longrightarrow> pinv (prun s evs)"
proof (induction evs arbitrary: s)
  case Nil
  then show ?case by (simp add: prun_def)
next
  case (Cons e evs)
  have ok: "ctx \<in> snd ` set (holders s)" if "e = Release ctx" for ctx
    using Cons.prems(2) that by simp
  have c: "conforming (pstep s e) evs"
    using Cons.prems(2) by (cases e) simp_all
  have "pinv (pstep s e)" using pinv_step [OF Cons.prems(1) ok] by blast
  from Cons.IH [OF this c] show ?case by (simp add: prun_def)
qed

text \<open>
  Claim C4. From the initialized pool, along every trace of the steps above in which
  \<open>release\<close> is only called with a context that is held at that moment, no context is
  held by two acquisitions at once, and no held context is in \<open>available\<close>.
\<close>

theorem pool_exclusive:
  assumes "conforming (initialize now (new_pool config)) evs"
  shows "distinct (map snd (holders (prun (initialize now (new_pool config)) evs))) \<and>
         set (map snd (holders (prun (initialize now (new_pool config)) evs))) \<inter>
           set (available (prun (initialize now (new_pool config)) evs)) = {}"
proof -
  let ?s = "prun (initialize now (new_pool config)) evs"
  have "pinv ?s"
    using pinv_run [OF initialized_pinv [OF initialized_initialize] assms] .
  then have "distinct (map (slot ?s) (live ?s @ parked ?s))" by (rule pinvD(7))
  then have "distinct (live ?s)" by (simp add: distinct_map)
  then show ?thesis by (auto simp: live_def)
qed

lemma pool_config_step: "pool_config (pstep s e) = pool_config s"
  by (cases e)
    (auto simp: hand_out_def give_back_def release_def recycle_fields Let_def
      split: option.splits list.splits)

lemma pool_config_run: "pool_config (prun s evs) = pool_config s"
  unfolding prun_def by (induction evs arbitrary: s) (simp_all add: pool_config_step)

lemma pool_config_init_contexts: "pool_config (init_contexts n now s) = pool_config s"
  by (induction n arbitrary: s) (simp_all add: createPoolContext_def Let_def)

lemma pool_config_initialize: "pool_config (initialize now (new_pool config)) = config"
  by (simp add: initialize_def pool_config_init_contexts new_pool_def)

lemma release_no_recycle:
  "\<not> 0 < contextMaxUses (pool_config s) \<Longrightarrow> recycling (pstep s (Release ctx)) = recycling s"
  by (auto simp: release_def give_back_def hand_out_def Let_def split: option.splits list.splits)

lemma recycling_step_empty:
  assumes "\<not> 0 < contextMaxUses (pool_config s)" and "recycling s = []"
  shows "recycling (pstep s e) = []"
proof (cases e)
  case (Release ctx)
  then show ?thesis using release_no_recycle [OF assms(1)] assms(2) by simp
qed (use assms in \<open>auto simp: hand_out_def give_back_def recycle_fields Let_def
      split: option.splits list.splits\<close>)

lemma recycling_run_empty:
  "\<not> 0 < contextMaxUses (pool_config s) \<Longrightarrow> recycling s = [] \<Longrightarrow> recycling (prun s evs) = []"
  unfolding prun_def
  by (induction evs arbitrary: s) (simp_all add: recycling_step_empty pool_config_step)

lemma recycling_initialize: "recycling (initialize now (new_pool config)) = []"
  using initialized_initialize [of config now] by (simp add: initialized_def)

text \<open>
  The protocol matters. \<open>release\<close> does not check that the context is held: released a
  second time, the entry is pushed to \<open>available\<close> twice and then handed to two callers.
\<close>

lemma stray_release_duplicates:
  "\<not> conforming (initialize 7 (new_pool pool2_config)) stray_trace \<and>
   holders (prun (initialize 7 (new_pool pool2_config)) stray_trace) = [(1, 1), (2, 1)]"
  unfolding stray_trace_def by code_simp

text \<open>
  Claim C5. In every state \<open>s\<close> the pool reaches along such a trace: a release of a held
  context whose \<open>useCount\<close> has reached a positive \<open>contextMaxUses\<close> starts recycling
  (the entry goes to neither \<open>available\<close> nor a waiter); when \<open>recycleContext\<close> for an
  entry completes, the entry stored under its slot id has \<open>useCount = 0\<close> and a browser
  context different from the old one, and is not yet available; with
  \<open>contextMaxUses = 0\<close> no release starts recycling.
\<close>

theorem release_recycles:
  assumes conf: "conforming (initialize now (new_pool config)) evs"
    and s: "s = prun (initialize now (new_pool config)) evs"
  shows "(\<forall>ctx. ctx \<in> snd ` set (holders s) \<and> 0 < contextMaxUses config \<and>
             contextMaxUses config \<le> useCount (store s ctx) \<longrightarrow>
           recycling (pstep s (Release ctx)) = recycling s @ [ctx] \<and>
           available (pstep s (Release ctx)) = available s \<and>
           waiters (pstep s (Release ctx)) = waiters s) \<and>
         (\<forall>r t. r \<in> set (recycling s) \<longrightarrow>
           (\<exists>f. map_of (contexts (pstep s (RecycleDone r True t))) (ctx_id (store s r)) = Some f \<and>
                useCount (store (pstep s (RecycleDone r True t)) f) = 0 \<and>
                browserContext (store (pstep s (RecycleDone r True t)) f) \<noteq> browserContext (store s r) \<and>
                f \<notin> set (available (pstep s (RecycleDone r True t))))) \<and>
         (contextMaxUses config = 0 \<longrightarrow>
           recycling s = [] \<and> (\<forall>ctx. recycling (pstep s (Release ctx)) = []))"
proof (intro conjI allI impI)
  have p: "pinv s"
    unfolding s using pinv_run [OF initialized_pinv [OF initialized_initialize] conf] .
  have cfg: "pool_config s = config"
    unfolding s by (simp add: pool_config_run pool_config_initialize)
  {
    fix ctx
    assume a: "ctx \<in> snd ` set (holders s) \<and> 0 < contextMaxUses config \<and>
             contextMaxUses config \<le> useCount (store s ctx)"
    then have fe: "find_entry (s\<lparr> holders := drop_holder ctx (holders s) \<rparr>) ctx = Some ctx"
      using find_entry_held [OF p] by (simp add: find_entry_def)
    with a cfg show "recycling (pstep s (Release ctx)) = recycling s @ [ctx]"
      "available (pstep s (Release ctx)) = available s"
      "waiters (pstep s (Release ctx)) = waiters s"
      by (simp_all add: release_def Let_def)
  }
  {
    fix r t assume r: "r \<in> set (recycling s)"
    then have own: "r \<in> set (live s @ parked s)" by (simp add: parked_def)
    then have lt: "r < next_ref s" by (rule pinv_owned_lt [OF p])
    let ?s1 = "s\<lparr> recycling := remove1 r (recycling s) \<rparr>"
    have ne1: "r \<noteq> next_ref ?s1" using lt by simp
    note rs = recycle_store(2,3) [OF ne1, simplified]
    have eq: "pstep s (RecycleDone r True t) =
        (recycleContext r t ?s1)\<lparr> recycled := recycled (recycleContext r t ?s1) @ [r] \<rparr>"
      using r pinvD(1) [OF p] by (simp add: Let_def)
    have "next_ref s \<notin> set (available s)"
      using pinv_live_lt [OF p, of "next_ref s"] by (auto simp: live_def)
    moreover have "browserContext (store s r) = r" using pinvD(2) [OF p lt] .
    ultimately
    show "\<exists>f. map_of (contexts (pstep s (RecycleDone r True t))) (ctx_id (store s r)) = Some f \<and>
                useCount (store (pstep s (RecycleDone r True t)) f) = 0 \<and>
                browserContext (store (pstep s (RecycleDone r True t)) f) \<noteq> browserContext (store s r) \<and>
                f \<notin> set (available (pstep s (RecycleDone r True t)))"
      unfolding eq using lt
      by (intro exI [of _ "next_ref s"]) (simp add: rs recycle_fields update_conv')
  }
  {
    assume z: "contextMaxUses config = 0"
    then have n: "\<not> 0 < contextMaxUses (pool_config (initialize now (new_pool config)))"
      by (simp add: pool_config_initialize)
    show e: "recycling s = []"
      unfolding s by (rule recycling_run_empty [OF n recycling_initialize])
    fix ctx
    show "recycling (pstep s (Release ctx)) = []"
      using release_no_recycle [of s ctx] z cfg e by simp
  }
qed

lemma busy_trace_conforming: "conforming (initialize 7 (new_pool pool2_config)) busy_trace"
  by code_simp

lemma busy_trace_holders:
  "holders (prun (initialize 7 (new_pool pool2_config)) busy_trace) = [(2, 1), (3, 2)]"
  by code_simp

theorem pool_exclusive_witness:
  "conforming (initialize 7 (new_pool pool2_config)) busy_trace \<and>
   holders (prun (initialize 7 (new_pool pool2_config)) busy_trace) = [(2, 1), (3, 2)] \<and>
   distinct (map snd (holders (prun (initialize 7 (new_pool pool2_config)) busy_trace)))"
  using pool_exclusive [OF busy_trace_conforming] busy_trace_conforming busy_trace_holders
  by simp

lemma once_used_conforming:
  "conforming (initialize 7 (new_pool pool1_config)) [Acquire 0, ProbeOk 0]"
  by code_simp

lemma once_released_conforming:
  "conforming (initialize 7 (new_pool pool1_config)) [Acquire 0, ProbeOk 0, Release 0]"
  by code_simp

lemma once_used_facts:
  "holders once_used = [(0, 0)]"
  "useCount (store once_used 0) = 1"
  "available once_used = []"
  "contextMaxUses pool1_config = 1"
  unfolding once_used_def by code_simp+

lemma once_released_facts:
  "recycling once_released = [0]"
  "ctx_id (store once_released 0) = 0"
  "browserContext (store once_released 0) = 0"
  unfolding once_released_def by code_simp+

theorem release_recycles_witness:
  "recycling (pstep once_used (Release 0)) = [0] \<and>
   available (pstep once_used (Release 0)) = [] \<and>
   (\<exists>f. map_of (contexts (pstep once_released (RecycleDone 0 True 9))) 0 = Some f \<and>
        useCount (store (pstep once_released (RecycleDone 0 True 9)) f) = 0 \<and>
        browserContext (store (pstep once_released (RecycleDone 0 True 9)) f) \<noteq> 0)"
proof -
  have h: "0 \<in> snd ` set (holders once_used) \<and> 0 < contextMaxUses pool1_config \<and>
      contextMaxUses pool1_config \<le> useCount (store once_used 0)"
    by (simp add: once_used_facts)
  note a = release_recycles [OF once_used_conforming once_used_def, THEN conjunct1, rule_format,
      OF h, unfolded once_used_facts]
  have r: "0 \<in> set (recycling once_released)"
    by (simp add: once_released_facts)
  note b = release_recycles [OF once_released_conforming once_released_def,
      THEN conjunct2, THEN conjunct1, rule_format, OF r, of 9, unfolded once_released_facts(2,3)]
  have e: "recycling once_used = []"
    unfolding once_used_def by code_simp
  from a e have "recycling (pstep once_used (Release 0)) = [0]"
    "available (pstep once_used (Release 0)) = []"
    by (simp_all only: append_Nil)
  moreover from b obtain f where
    "map_of (contexts (pstep once_released (RecycleDone 0 True 9))) 0 = Some f"
    "useCount (store (pstep once_released (RecycleDone 0 True 9)) f) = 0"
    "browserContext (store (pstep once_released (RecycleDone 0 True 9)) f) \<noteq> 0"
    by blast
  ultimately show ?thesis by blast
qed

section \<open>Properties: The job queue (p-queue) as scrapeMany drives it\<close>

text \<open>
  Claim C7 at a failing input: concurrency 1 and a batch of three urls. Job 0 starts at
  once; jobs 1 and 2 wait with priorities 1 and 2. When job 0 settles, job 2 starts, and
  job 1 starts last: the queued jobs start in reverse input order.
\<close>

theorem batch_starts_in_reverse:
  "q_started (submit_batch 1 3) = [0] \<and>
   q_queue (submit_batch 1 3) = [(2, 2), (1, 1)] \<and>
   q_started (after_settling 1 (submit_batch 1 3)) = [0, 2] \<and>
   q_started (after_settling 2 (submit_batch 1 3)) = [0, 2, 1]"
  by (simp add: submit_batch_def after_settling_def q_add_def q_next_def tryToStartAnother_def
      enqueue_def new_queue_def upt_rec numeral_eq_Suc)

section \<open>Properties: Scraper.scrapeStream\<close>

subsection \<open>Delivery of results\<close>

lemma distinct_bounded_length:
  "distinct xs \<Longrightarrow> set xs \<subseteq> {..<n} \<Longrightarrow> length xs \<le> n"
  by (metis card_lessThan card_mono distinct_card finite_lessThan)

lemma sinv_length: "sinv n st f lg s \<Longrightarrow> length st \<le> n"
  by (simp add: sinv_def distinct_bounded_length)

lemma sinv_init: "sinv (length urls) [] 0 [] (stream_init urls)"
  by (simp add: sinv_def stream_init_def)

lemma sinv_settled:
  assumes "sinv n st f lg s" and "i < n" and "i \<notin> set st"
  shows "sinv n (i # st) f (lg @ [pushed_result W (jobs ! i) outcome])
           (sstep W jobs s (TaskSettled i outcome))"
proof -
  have "length st \<le> n" using sinv_length [OF assms(1)] .
  moreover have "length (i # st) \<le> n"
    using assms by (intro distinct_bounded_length) (auto simp: sinv_def)
  ultimately have "f < n" using assms(1) by (simp add: sinv_def)
  with assms show ?thesis
    by (auto simp: sinv_def notify_def)
qed

lemma sinv_finally:
  assumes "sinv n st f lg s" and "f < length st"
  shows "sinv n st (Suc f) lg (sstep W jobs s TaskFinally)"
proof -
  have "length st \<le> n" using sinv_length [OF assms(1)] .
  with assms show ?thesis
    by (auto simp: sinv_def notify_def Let_def)
qed

lemma sinv_consumer:
  assumes "sinv n st f lg s"
  shows "sinv n st f lg (sstep W jobs s ConsumerStep)"
  using assms by (auto simp: sinv_def split: list.splits)

lemma sinv_run:
  assumes "sinv n st f lg s" and "stream_trace n st f evs"
  shows "sinv n (rev (settled_jobs evs) @ st) (f + finallies evs) (lg @ pushed W jobs evs)
           (srun W jobs s evs)"
  using assms
proof (induction evs arbitrary: s st f lg)
  case Nil
  then show ?case by (simp add: srun_def)
next
  case (Cons e evs)
  show ?case
  proof (cases e)
    case (TaskSettled i outcome)
    with Cons.prems have c: "i < n" "i \<notin> set st" "stream_trace n (i # st) f evs" by simp_all
    from Cons.IH [OF sinv_settled [OF Cons.prems(1) c(1,2)] c(3), of W jobs outcome]
    show ?thesis using TaskSettled by (simp add: srun_def)
  next
    case TaskFinally
    with Cons.prems have c: "f < length st" "stream_trace n st (Suc f) evs" by simp_all
    from Cons.IH [OF sinv_finally [OF Cons.prems(1) c(1)] c(2), of W jobs]
    show ?thesis using TaskFinally by (simp add: srun_def)
  next
    case ConsumerStep
    with Cons.prems have c: "stream_trace n st f evs" by simp
    from Cons.IH [OF sinv_consumer [OF Cons.prems(1)] c, of W jobs]
    show ?thesis using ConsumerStep by (simp add: srun_def)
  qed
qed

lemma drain:
  assumes "finished s" and "\<not> resolve s" and "returned s \<longrightarrow> results s = []"
  shows "returned (srun W jobs s (replicate (Suc (length (results s))) ConsumerStep)) \<and>
         yielded (srun W jobs s (replicate (Suc (length (results s))) ConsumerStep))
           = yielded s @ results s"
  using assms
proof (induction "results s" arbitrary: s)
  case Nil
  then show ?case by (auto simp: srun_def)
next
  case (Cons r rest)
  let ?s = "s\<lparr> results := rest, yielded := yielded s @ [r] \<rparr>"
  have nr: "\<not> returned s" using Cons.prems(3) Cons.hyps(2) by auto
  have st: "sstep W jobs s ConsumerStep = ?s"
    using Cons.hyps(2) [symmetric] Cons.prems nr by simp
  have "rest = results ?s" by simp
  from Cons.hyps(1) [OF this] Cons.prems nr
  have "returned (srun W jobs ?s (replicate (Suc (length rest)) ConsumerStep)) \<and>
        yielded (srun W jobs ?s (replicate (Suc (length rest)) ConsumerStep)) = yielded ?s @ rest"
    by simp
  then show ?case
    using st Cons.hyps(2) [symmetric] by (simp add: srun_def)
qed

lemma srun_append: "srun W jobs s (xs @ ys) = srun W jobs (srun W jobs s xs) ys"
  by (simp add: srun_def)

lemma length_pushed: "length (pushed W jobs evs) = settles evs"
  by (induction evs rule: settles.induct) simp_all

lemma length_settled_jobs: "length (settled_jobs evs) = settles evs"
  by (induction evs rule: settles.induct) simp_all

text \<open>
  For a list of urls that is not empty the loop does end: once every job has settled and
  every \<open>finally\<close> callback has run, a consumer that keeps asking reaches the end of
  the generator, having been given exactly the pushed results, one for each job.
\<close>

lemma stream_delivers_all:
  assumes tr: "stream_trace (length urls) [] 0 evs"
    and all: "settles evs = length urls" "finallies evs = length urls"
    and ne: "urls \<noteq> []"
    and jobs: "jobs = stream_jobs uuid urls ov"
  shows "\<exists>k. returned (srun W jobs (stream_init urls) (evs @ replicate k ConsumerStep)) \<and>
             yielded (srun W jobs (stream_init urls) (evs @ replicate k ConsumerStep))
               = pushed W jobs evs \<and>
             length (pushed W jobs evs) = length urls \<and>
             mset (settled_jobs evs) = mset [0..<length urls]"
proof -
  let ?n = "length urls"
  let ?s = "srun W jobs (stream_init urls) evs"
  have inv: "sinv ?n (rev (settled_jobs evs)) ?n (pushed W jobs evs) ?s"
    using sinv_run [OF sinv_init tr, of W jobs] all by simp
  then have fin: "finished ?s" "\<not> resolve ?s" "returned ?s \<longrightarrow> results ?s = []"
    and y: "yielded ?s @ results ?s = pushed W jobs evs"
    using ne by (auto simp: sinv_def)
  have d: "distinct (settled_jobs evs)" "set (settled_jobs evs) \<subseteq> {..<?n}"
    using inv by (simp_all add: sinv_def)
  have "card (set (settled_jobs evs)) = ?n"
    using d(1) all(1) by (simp add: distinct_card length_settled_jobs)
  with d(2) have "set (settled_jobs evs) = {..<?n}"
    by (simp add: card_subset_eq)
  then have "set (settled_jobs evs) = set [0..<?n]" by (simp add: lessThan_atLeast0)
  then have m: "mset (settled_jobs evs) = mset [0..<?n]"
    using d(1) by (metis distinct_upt set_eq_iff_mset_eq_distinct)
  from drain [OF fin, of W jobs] y m show ?thesis
    by (intro exI [of _ "Suc (length (results ?s))"])
       (simp add: srun_append length_pushed all)
qed

lemma stream_trace_none:
  "stream_trace 0 st f evs \<Longrightarrow> length st \<le> f \<Longrightarrow> evs = replicate (length evs) ConsumerStep"
  by (induction evs arbitrary: st f) (auto split: sevent.splits elim: stream_trace.elims)

lemma parked_forever:
  "resolve s \<Longrightarrow> srun W jobs s (replicate k ConsumerStep) = s"
  by (induction k) (simp_all add: srun_def)

text \<open>
  Claim C3 at the failing input \<open>urls = []\<close>. No job is submitted, so a trace holds
  consumer steps only. The first turn of the loop finds \<open>done\<close> false and no result and
  awaits a promise whose resolver is only called from task callbacks: in every trace the
  generator never returns, yields nothing, and after its first turn stays suspended.
\<close>

theorem stream_empty_never_returns:
  assumes "stream_trace 0 [] 0 evs"
  shows "\<not> returned (srun W (stream_jobs uuid [] ov) (stream_init []) evs) \<and>
         yielded (srun W (stream_jobs uuid [] ov) (stream_init []) evs) = [] \<and>
         (evs \<noteq> [] \<longrightarrow> resolve (srun W (stream_jobs uuid [] ov) (stream_init []) evs))"
proof -
  let ?jobs = "stream_jobs uuid [] ov"
  from stream_trace_none [OF assms] obtain k where evs: "evs = replicate k ConsumerStep"
    by auto
  show ?thesis
  proof (cases k)
    case 0
    with evs show ?thesis by (simp add: srun_def stream_init_def)
  next
    case (Suc m)
    let ?p = "(stream_init [])\<lparr> resolve := True \<rparr>"
    have "srun W ?jobs (stream_init []) evs = srun W ?jobs ?p (replicate m ConsumerStep)"
      using evs Suc by (simp add: srun_def stream_init_def)
    also have "\<dots> = ?p" by (rule parked_forever) simp
    finally show ?thesis by (simp add: stream_init_def)
  qed
qed

theorem stream_empty_never_returns_witness:
  "stream_trace 0 [] 0 [ConsumerStep, ConsumerStep, ConsumerStep] \<and>
   \<not> returned (srun world_ok (stream_jobs (\<lambda>i. ''id'') [] None) (stream_init [])
       [ConsumerStep, ConsumerStep, ConsumerStep]) \<and>
   resolve (srun world_ok (stream_jobs (\<lambda>i. ''id'') [] None) (stream_init [])
       [ConsumerStep, ConsumerStep, ConsumerStep])"
proof -
  have t: "stream_trace 0 [] 0 [ConsumerStep, ConsumerStep, ConsumerStep]" by simp
  from stream_empty_never_returns [OF t, where W = world_ok and uuid = "\<lambda>i. ''id''" and ov = None] t
  show ?thesis by simp
qed

section \<open>Results of processJob and scrapeMany\<close>

lemma static_path_url: "static_path W P jc job sr = Inr r \<Longrightarrow> res_url r = job_url job"
  by (auto simp: static_path_def split: outcome.splits prod.splits)

lemma render_url: "render W R P jc job = Inr r \<Longrightarrow> res_url r = job_url job"
  unfolding render_def
  by (auto split: outcome.splits prod.splits if_splits)

lemma browser_path_url: "browser_path W R P jc job = Inr r \<Longrightarrow> res_url r = job_url job"
  by (auto simp: browser_path_def with_page_def failure_result_def Let_def dest: render_url
      split: outcome.splits sum.splits)

lemma processJob_url: "processJob W R P config job = Inr r \<Longrightarrow> res_url r = job_url job"
  by (auto simp: processJob_def Let_def dest: static_path_url browser_path_url split: option.splits)

lemma length_make_jobs: "length (make_jobs uuid urls ov) = length urls"
  by (simp add: make_jobs_def)

lemma nth_make_jobs:
  "i < length urls \<Longrightarrow> job_url (make_jobs uuid urls ov ! i) = urls ! i"
  by (simp add: make_jobs_def nth_enumerate_eq)

lemma settled_result_url:
  assumes "i < length jobs"
    and "\<And>v. r = Fulfilled (Some v) \<Longrightarrow> res_url v = job_url (jobs ! i)"
  shows "res_url (settled_result W uuid jobs i r) = job_url (jobs ! i)"
  using assms by (auto simp: settled_result_def Let_def split: settled.splits option.splits)

lemma queue_add_processJob_url:
  "queue_add (processJob W R P config job) = Fulfilled (Some v) \<Longrightarrow> res_url v = job_url job"
  by (auto simp: queue_add_def dest: processJob_url split: sum.splits)

text \<open>
  Claim C2. Once the scraper is initialized, \<open>scrapeMany\<close> resolves with an array that has
  one result per input url, and the result at index \<open>i\<close> carries the url at index \<open>i\<close>;
  this holds whatever each job's collaborators do, so also when jobs fail or reject.
\<close>

theorem scrapeMany_input_order:
  "\<exists>rs. scrapeMany (Returns ()) W Rs Ps config uuid urls ov = Inr rs \<and>
        length rs = length urls \<and>
        (\<forall>i<length urls. res_url (rs ! i) = urls ! i)"
proof -
  let ?jobs = "make_jobs uuid urls ov"
  let ?results = "map (\<lambda>(i, job). queue_add (processJob W (Rs i) (Ps i) config job)) (enumerate 0 ?jobs)"
  let ?rs = "map (\<lambda>(i, r). settled_result W uuid ?jobs i r) (enumerate 0 ?results)"
  have eq: "scrapeMany (Returns ()) W Rs Ps config uuid urls ov = Inr ?rs"
    by (simp add: scrapeMany_def Let_def)
  have len: "length ?rs = length urls"
    by (simp add: length_make_jobs)
  have "res_url (?rs ! i) = urls ! i" if i: "i < length urls" for i
  proof -
    have ij: "i < length ?jobs" using i by (simp add: length_make_jobs)
    have r: "?results ! i = queue_add (processJob W (Rs i) (Ps i) config (?jobs ! i))"
      using ij by (simp add: nth_enumerate_eq)
    have "?rs ! i = settled_result W uuid ?jobs i (?results ! i)"
      using ij by (simp add: nth_enumerate_eq)
    then have "res_url (?rs ! i) = job_url (?jobs ! i)"
      using settled_result_url [OF ij, of "?results ! i" W uuid] r queue_add_processJob_url
      by metis
    then show ?thesis using nth_make_jobs [OF i] by simp
  qed
  with eq len show ?thesis by blast
qed

theorem scrapeMany_input_order_witness:
  "\<exists>rs. scrapeMany (Returns ()) world_ok two_runs (\<lambda>i. perf_sample) DEFAULT_CONFIG (\<lambda>i. ''id'')
          [''https://example.com/a'', ''https://example.com/b''] None = Inr rs \<and>
        length rs = 2 \<and> res_url (rs ! 0) = ''https://example.com/a'' \<and>
        res_url (rs ! 1) = ''https://example.com/b'' \<and> res_error (rs ! 0) \<noteq> None"
proof -
  obtain rs where rs: "scrapeMany (Returns ()) world_ok two_runs (\<lambda>i. perf_sample) DEFAULT_CONFIG (\<lambda>i. ''id'')
          [''https://example.com/a'', ''https://example.com/b''] None = Inr rs"
     and len: "length rs = length [''https://example.com/a'', ''https://example.com/b'']"
     and url: "\<forall>i<length [''https://example.com/a'', ''https://example.com/b''].
          res_url (rs ! i) = [''https://example.com/a'', ''https://example.com/b''] ! i"
    using scrapeMany_input_order [of world_ok two_runs "\<lambda>i. perf_sample" DEFAULT_CONFIG "\<lambda>i. ''id''"
        "[''https://example.com/a'', ''https://example.com/b'']" None] by blast
  have "scrapeMany (Returns ()) world_ok two_runs (\<lambda>i. perf_sample) DEFAULT_CONFIG (\<lambda>i. ''id'')
          [''https://example.com/a'', ''https://example.com/b''] None = Inr rs \<Longrightarrow> res_error (rs ! 0) \<noteq> None"
    by (auto simp: scrapeMany_def make_jobs_def queue_add_def processJob_def spread_def DEFAULT_CONFIG_def
        truthy_def tryStaticFetch_def two_runs_def run_goto_throws_def run_ok_def browser_path_def
        with_page_def render_def settled_result_def failure_result_def Let_def)
  with rs have e: "res_error (rs ! 0) \<noteq> None" by simp
  from url have "res_url (rs ! 0) = ''https://example.com/a''" "res_url (rs ! 1) = ''https://example.com/b''"
    by simp_all
  with rs len e show ?thesis by simp
qed

subsection \<open>Failures inside a job\<close>

lemma static_path_no_error: "static_path W P jc job sr = Inr r \<Longrightarrow> res_error r = None"
  by (auto simp: static_path_def split: outcome.splits prod.splits)

lemma render_no_error: "render W R P jc job = Inr r \<Longrightarrow> res_error r = None"
  unfolding render_def
  by (auto split: outcome.splits prod.splits if_splits)

lemma browser_path_error:
  assumes "browser_path W R P jc job = Inr r" and "res_error r = Some m"
  shows "\<exists>err. r = failure_result W P job err"
  using assms
  by (auto simp: browser_path_def with_page_def Let_def dest: render_no_error
      split: outcome.splits sum.splits)

lemma processJob_error:
  assumes "processJob W R P config job = Inr r" and "res_error r = Some m"
  shows "\<exists>err. r = failure_result W P job err"
  using assms
  by (auto simp: processJob_def Let_def dest: static_path_no_error browser_path_error
      split: option.splits)

lemma browser_path_converts:
  "acquire_r R = Returns c \<Longrightarrow> \<exists>r. browser_path W R P jc job = Inr r"
  by (auto simp: browser_path_def split: outcome.splits sum.splits)

text \<open>
  Claim C6, as amended. A result of \<open>processJob\<close> that carries an error comes from its
  \<open>catch\<close> block: the error string is the thrown error's message (or \<open>String\<close> of a
  non-Error value), navigation, extraction and conversion are 0, \<open>total\<close> is the time
  elapsed since the job started, the metadata is \<open>emptyMetadata(url)\<close> and the markdown is
  empty. Once the pool has handed out a context, every failure of the browser path is
  converted so. A rejection that reaches \<open>scrapeMany\<close> becomes a result whose four timings
  are all 0, with \<open>String(reason)\<close> as its error.
\<close>

theorem job_failure_result_shape:
  "(\<forall>r m. processJob W R P config job = Inr r \<and> res_error r = Some m \<longrightarrow>
      (\<exists>err. r = failure_result W P job err \<and> m = err_message err) \<and>
      t_total (timing r) = catchNow P - totalStart P \<and>
      t_navigation (timing r) = 0 \<and> t_extraction (timing r) = 0 \<and> t_conversion (timing r) = 0 \<and>
      metadata r = emptyMetadata W (job_url job) \<and> markdown r = []) \<and>
   (\<forall>c. acquire_r R = Returns c \<longrightarrow> (\<exists>r. browser_path W R P jc job = Inr r)) \<and>
   (\<forall>c err. acquire_r R = Returns c \<and>
      (case newPage_r R of Throws e \<Rightarrow> Inl e | Returns u \<Rightarrow> with_page W R P jc job) = Inl err \<longrightarrow>
      browser_path W R P jc job = Inr (failure_result W P job err)) \<and>
   (\<forall>i e. i < length jobs \<longrightarrow>
      res_error (settled_result W uuid jobs i (Rejected e)) = Some (String_of e) \<and>
      t_total (timing (settled_result W uuid jobs i (Rejected e))) = 0 \<and>
      t_navigation (timing (settled_result W uuid jobs i (Rejected e))) = 0 \<and>
      t_extraction (timing (settled_result W uuid jobs i (Rejected e))) = 0 \<and>
      t_conversion (timing (settled_result W uuid jobs i (Rejected e))) = 0 \<and>
      metadata (settled_result W uuid jobs i (Rejected e)) = emptyMetadata W (job_url (jobs ! i)) \<and>
      markdown (settled_result W uuid jobs i (Rejected e)) = [])"
proof (intro conjI allI impI)
  fix r m assume a: "processJob W R P config job = Inr r \<and> res_error r = Some m"
  then obtain err where r: "r = failure_result W P job err"
    using processJob_error by blast
  with a have m: "m = err_message err" by (simp add: failure_result_def)
  with r show "\<exists>err. r = failure_result W P job err \<and> m = err_message err" by blast
  from r show "t_total (timing r) = catchNow P - totalStart P"
    "t_navigation (timing r) = 0" "t_extraction (timing r) = 0" "t_conversion (timing r) = 0"
    "metadata r = emptyMetadata W (job_url job)" "markdown r = []"
    by (simp_all add: failure_result_def)
next
  fix c assume "acquire_r R = Returns c"
  then show "\<exists>r. browser_path W R P jc job = Inr r" by (rule browser_path_converts)
next
  fix c err
  assume "acquire_r R = Returns c \<and>
      (case newPage_r R of Throws e \<Rightarrow> Inl e | Returns u \<Rightarrow> with_page W R P jc job) = Inl err"
  then show "browser_path W R P jc job = Inr (failure_result W P job err)"
    by (simp add: browser_path_def)
next
  fix i e assume i: "i < length jobs"
  then show "res_error (settled_result W uuid jobs i (Rejected e)) = Some (String_of e)"
    "t_total (timing (settled_result W uuid jobs i (Rejected e))) = 0"
    "t_navigation (timing (settled_result W uuid jobs i (Rejected e))) = 0"
    "t_extraction (timing (settled_result W uuid jobs i (Rejected e))) = 0"
    "t_conversion (timing (settled_result W uuid jobs i (Rejected e))) = 0"
    "metadata (settled_result W uuid jobs i (Rejected e)) = emptyMetadata W (job_url (jobs ! i))"
    "markdown (settled_result W uuid jobs i (Rejected e)) = []"
    by (simp_all add: settled_result_def zero_timing_def Let_def)
qed

lemma nav_failure:
  "processJob world_ok run_goto_throws perf_sample DEFAULT_CONFIG job_a =
     Inr \<lparr> res_id = ''job-a'', res_url = ''https://example.com/a'', markdown = [],
           metadata = emptyMetadata world_ok ''https://example.com/a'',
           timing = \<lparr> t_total = 5, t_navigation = 0, t_extraction = 0, t_conversion = 0 \<rparr>,
           res_error = Some ''Timeout 30000ms exceeded'' \<rparr>"
  by (simp add: processJob_def spread_def job_a_def DEFAULT_CONFIG_def truthy_def tryStaticFetch_def
      run_goto_throws_def run_ok_def browser_path_def with_page_def render_def failure_result_def
      perf_sample_def)

text \<open>
  The claim as stated asks for \<open>total = 0\<close>. A navigation timeout caught 5 ms after the
  job started gives a failure result with \<open>total = 5\<close>.
\<close>

theorem job_failure_total_counterexample:
  "processJob world_ok run_goto_throws perf_sample DEFAULT_CONFIG job_a =
     Inr \<lparr> res_id = ''job-a'', res_url = ''https://example.com/a'', markdown = [],
           metadata = emptyMetadata world_ok ''https://example.com/a'',
           timing = \<lparr> t_total = 5, t_navigation = 0, t_extraction = 0, t_conversion = 0 \<rparr>,
           res_error = Some ''Timeout 30000ms exceeded'' \<rparr> \<and>
   goto_r run_goto_throws ''https://example.com/a'' 30000 ''networkidle'' =
     Throws (ErrorObj ''TimeoutError'' ''Timeout 30000ms exceeded'') \<and>
   (5::real) \<noteq> 0"
  using nav_failure by (simp add: run_goto_throws_def)

theorem job_failure_result_shape_witness:
  "t_total (timing (failure_result world_ok perf_sample job_a
       (ErrorObj ''TimeoutError'' ''Timeout 30000ms exceeded''))) = 5 \<and>
   processJob world_ok run_goto_throws perf_sample DEFAULT_CONFIG job_a =
     Inr (failure_result world_ok perf_sample job_a
       (ErrorObj ''TimeoutError'' ''Timeout 30000ms exceeded'')) \<and>
   t_navigation (timing (failure_result world_ok perf_sample job_a
       (ErrorObj ''TimeoutError'' ''Timeout 30000ms exceeded''))) = 0 \<and>
   t_total (timing (settled_result world_ok (\<lambda>i. ''id'') [job_a] 0
       (Rejected (ErrorObj ''TypeError'' ''bad document'')))) = 0 \<and>
   res_error (settled_result world_ok (\<lambda>i. ''id'') [job_a] 0
       (Rejected (ErrorObj ''TypeError'' ''bad document''))) = Some ''TypeError: bad document''"
proof -
  let ?f = "failure_result world_ok perf_sample job_a
       (ErrorObj ''TimeoutError'' ''Timeout 30000ms exceeded'')"
  have p: "processJob world_ok run_goto_throws perf_sample DEFAULT_CONFIG job_a = Inr ?f"
    using nav_failure by (simp add: failure_result_def job_a_def perf_sample_def)
  have e: "res_error ?f = Some ''Timeout 30000ms exceeded''"
    by (simp add: failure_result_def)
  note t = job_failure_result_shape [where W = world_ok and R = run_goto_throws and P = perf_sample
      and config = DEFAULT_CONFIG and job = job_a and jobs = "[job_a]" and uuid = "\<lambda>i. ''id''"
      and jc = DEFAULT_CONFIG]
  from t p e have "t_total (timing ?f) = catchNow perf_sample - totalStart perf_sample"
    "t_navigation (timing ?f) = 0" by blast+
  moreover from t have "t_total (timing (settled_result world_ok (\<lambda>i. ''id'') [job_a] 0
       (Rejected (ErrorObj ''TypeError'' ''bad document'')))) = 0"
    "res_error (settled_result world_ok (\<lambda>i. ''id'') [job_a] 0
       (Rejected (ErrorObj ''TypeError'' ''bad document''))) =
      Some (String_of (ErrorObj ''TypeError'' ''bad document''))"
    by simp_all
  ultimately show ?thesis using p by (simp add: perf_sample_def)
qed

subsection \<open>Rejections of scrape\<close>

lemma page_500_root: "has_empty_root (page_of 500) = False"
  unfolding page_of_def by code_simp

lemma page_500_body: "bodyMatch (page_of 500) = Some (body_of 500)"
  unfolding page_of_def body_of_def by code_simp

lemma page_500_text: "length (bodyContent (body_of 500)) = 500"
  unfolding body_of_def by code_simp

lemma ct_html: "str_includes ''text/html; charset=utf-8'' ''text/html''"
  by code_simp

lemma static_fetch_500:
  "tryStaticFetch (run_static 500) url cfg = Some (page_of 500, url)"
  by (simp add: tryStaticFetch_def run_static_def html_response_def ct_html looksLikeSPA_def
      page_500_root page_500_body page_500_text)

text \<open>
  Claim C1 at two failing inputs. With the default configuration the static fetch returns
  a page of 500 characters of text and \<open>extractContent\<close> throws: \<open>scrape\<close> rejects with
  that error. With the static fetch failing and \<open>pool.acquire\<close> rejecting, \<open>scrape\<close>
  rejects too. Neither failure is turned into a result.
\<close>

theorem scrape_rejects_on_static_extraction_failure:
  "scrape (Returns ()) world_extract_throws (run_static 500) perf_sample DEFAULT_CONFIG
      (\<lambda>i. ''job-a'') ''https://example.com/a'' None =
     Inl (ErrorObj ''TypeError'' ''bad document'') \<and>
   scrape (Returns ()) world_ok run_acquire_throws perf_sample DEFAULT_CONFIG
      (\<lambda>i. ''job-a'') ''https://example.com/a'' None =
     Inl (ErrorObj ''Error'' ''Browser not initialized'')"
proof
  show "scrape (Returns ()) world_extract_throws (run_static 500) perf_sample DEFAULT_CONFIG
      (\<lambda>i. ''job-a'') ''https://example.com/a'' None =
     Inl (ErrorObj ''TypeError'' ''bad document'')"
    by (simp add: scrape_def processJob_def spread_def DEFAULT_CONFIG_def truthy_def static_fetch_500
      static_path_def extract_html_def world_extract_throws_def world_ok_def)
  show "scrape (Returns ()) world_ok run_acquire_throws perf_sample DEFAULT_CONFIG
      (\<lambda>i. ''job-a'') ''https://example.com/a'' None =
     Inl (ErrorObj ''Error'' ''Browser not initialized'')"
    by (simp add: scrape_def processJob_def spread_def DEFAULT_CONFIG_def truthy_def
      tryStaticFetch_def run_acquire_throws_def run_ok_def browser_path_def)
qed

section \<open>The SPA heuristic\<close>

subsection \<open>Matching at a position\<close>

lemma lower_lt [simp]: "lower c = CHR ''<'' \<longleftrightarrow> c = CHR ''<''"
  by (auto simp: lower_def split: option.splits if_splits)


lemma lower_lt_id [simp]: "lower CHR ''<'' = CHR ''<''"
  using lower_lt [of "CHR ''<''"] by simp


lemma starts_ci_nonlt: "c \<noteq> CHR ''<'' \<Longrightarrow> \<not> starts_ci (CHR ''<'' # p) (c # s)"
  by simp






subsection \<open>Rendered pieces\<close>

lemma html_of_Nil [simp]: "html_of [] = []"
  by (simp add: html_of_def)

lemma html_of_Cons [simp]: "html_of (p # ps) = render_piece p @ html_of ps"
  by (simp add: html_of_def)

lemma html_of_append [simp]: "html_of (ps @ qs) = html_of ps @ html_of qs"
  by (simp add: html_of_def)

lemma plain_append [simp]: "plain (s @ t) = (plain s \<and> plain t)"
  by (auto simp: plain_def)

lemma plain_Cons [simp]: "plain (c # s) = (c \<noteq> CHR ''<'' \<and> plain s)"
  by (auto simp: plain_def)

lemma plain_Nil [simp]: "plain []"
  by (simp add: plain_def)

subsection \<open>Global replacement\<close>







subsection \<open>Lazy search for a closing tag\<close>



lemma find_here:
  "starts_ci p (c # s) \<Longrightarrow> find_ci p (c # s) = Some ([], drop (length p) (c # s))"
  by simp


subsection \<open>The three replacements of bodyContent\<close>


















lemma length_trim: "length (trim s) \<le> length s"
proof -
  have "length (trim s) \<le> length (dropWhile is_space s)"
    unfolding trim_def using length_dropWhile_le [of is_space "rev (dropWhile is_space s)"] by simp
  also have "\<dots> \<le> length s" by (rule length_dropWhile_le)
  finally show ?thesis .
qed


subsection \<open>The match of the body element\<close>













subsection \<open>The empty root container\<close>





subsection \<open>A body element that is never closed\<close>





subsection \<open>Trimming\<close>


text \<open>Every string is a real text with white space around it.\<close>

lemma real_text_exists:
  "\<exists>wl t wr. s = wl @ t @ wr \<and> list_all is_space wl \<and> list_all is_space wr \<and> solid t"
proof -
  let ?r = "dropWhile is_space s"
  let ?wl = "takeWhile is_space s"
  let ?wr = "rev (takeWhile is_space (rev ?r))"
  let ?t = "rev (dropWhile is_space (rev ?r))"
  have "rev ?r = takeWhile is_space (rev ?r) @ dropWhile is_space (rev ?r)" by simp
  then have "rev (rev ?r) = rev (takeWhile is_space (rev ?r) @ dropWhile is_space (rev ?r))"
    by (rule arg_cong)
  then have r: "?r = ?t @ ?wr" by (simp only: rev_rev_ident rev_append)
  have "s = ?wl @ ?r" by simp
  with r have s: "s = ?wl @ ?t @ ?wr" by (simp only:)
  have w: "list_all is_space ?wl" "list_all is_space ?wr"
    by (auto simp: list_all_iff dest: set_takeWhileD)
  have "solid ?t"
  proof (cases "?t = []")
    case False
    then have d: "dropWhile is_space (rev ?r) \<noteq> []" by simp
    have "hd ?t = hd ?r" using False r by (metis hd_append2)
    moreover have "?r \<noteq> []" using False r by (metis append_is_Nil_conv)
    ultimately have "\<not> is_space (hd ?t)" using hd_dropWhile [of is_space s] by simp
    moreover have "\<not> is_space (last ?t)"
      using hd_dropWhile [OF d] d by (simp add: last_rev)
    ultimately show ?thesis by (simp add: solid_def)
  qed (simp add: solid_def)
  with s w show ?thesis by blast
qed

subsection \<open>A page with an empty root container\<close>

lemma has_empty_root_suffix: "has_empty_root s \<Longrightarrow> has_empty_root (xs @ s)"
  by (induction xs) simp_all

lemma after_root_id_names:
  "after_root_id (''root'' @ s) = Some s" "after_root_id (''app'' @ s) = Some s"
  "after_root_id (''__next'' @ s) = Some s" "after_root_id (''__nuxt'' @ s) = Some s"
  by (simp_all add: after_root_id_def lower_def)

lemma after_root_id_name:
  assumes "name \<in> set [''root'', ''app'', ''__next'', ''__nuxt'']"
  shows "after_root_id (name @ s) = Some s"
proof -
  from assms consider "name = ''root''" | "name = ''app''" | "name = ''__next''" | "name = ''__nuxt''"
    by auto
  then show ?thesis
    by cases (simp_all only: after_root_id_names)
qed

lemma root_container_found:
  assumes "sp \<noteq> []" and "list_all is_space sp" and "is_quote q1" and "is_quote q2"
    and "name \<in> set [''root'', ''app'', ''__next'', ''__nuxt'']"
    and "CHR ''>'' \<notin> set attrs" and "list_all is_space ws"
  shows "has_empty_root
           (xs @ ''<div'' @ sp @ ''id='' @ [q1] @ name @ [q2] @ attrs @ ''>'' @ ws @ ''</div>'' @ rest)"
proof -
  obtain w s1 where sp: "sp = w # s1" using assms(1) by (cases sp) auto
  with assms(2) have w: "is_space w" and s1: "\<forall>x\<in>set s1. is_space x"
    by (simp_all add: list_all_iff)
  have i: "\<not> is_space CHR ''i''" "\<not> is_space CHR ''<''"
    by (simp_all add: is_space_def)
  let ?t = "ws @ ''</div>'' @ rest"
  let ?u = "attrs @ ''>'' @ ?t"
  have d1: "dropWhile is_space (s1 @ ''id='' @ [q1] @ name @ [q2] @ ?u) =
      ''id='' @ [q1] @ name @ [q2] @ ?u"
    using s1 i by (subst dropWhile_append2) simp_all
  have d2: "dropWhile (\<lambda>c. c \<noteq> CHR ''>'') ?u = ''>'' @ ?t"
    using assms(6) by (subst dropWhile_append2) auto
  have d3: "dropWhile is_space ?t = ''</div>'' @ rest"
    using assms(7) i by (subst dropWhile_append2) (simp_all add: list_all_iff)
  have c: "starts_ci ''</div>'' (''</div>'' @ rest)" "starts_ci ''id='' (''id='' @ z)"
    "starts_ci ''<div'' (''<div'' @ z)" for z
    by (simp_all add: lower_def)
  have "empty_root_at (''<div'' @ sp @ ''id='' @ [q1] @ name @ [q2] @ ?u)"
    unfolding empty_root_at_def
    using c(3) [of "sp @ ''id='' @ [q1] @ name @ [q2] @ ?u"] c(2) [of "[q1] @ name @ [q2] @ ?u"]
      c(1) w d1 d2 d3 assms(3,4) after_root_id_name [OF assms(5), of "[q2] @ ?u"]
    by (simp add: sp del: starts_ci.simps)
  then have "has_empty_root (''<div'' @ sp @ ''id='' @ [q1] @ name @ [q2] @ ?u)"
    by simp
  then show ?thesis
    using has_empty_root_suffix [of "''<div'' @ sp @ ''id='' @ [q1] @ name @ [q2] @ ?u" xs] by simp
qed

text \<open>
  A page that holds an empty root container is classified as a shell whatever the length
  of its text.
\<close>

lemma root_container_classified:
  assumes "sp \<noteq> []" and "list_all is_space sp" and "is_quote q1" and "is_quote q2"
    and "name \<in> set [''root'', ''app'', ''__next'', ''__nuxt'']"
    and "CHR ''>'' \<notin> set attrs" and "list_all is_space ws"
  shows "looksLikeSPA
           (xs @ ''<div'' @ sp @ ''id='' @ [q1] @ name @ [q2] @ attrs @ ''>'' @ ws @ ''</div>'' @ rest)"
  using root_container_found [OF assms] by (simp only: looksLikeSPA_def if_True)

subsection \<open>The classification of a fetched page\<close>





subsection \<open>Sample pages\<close>















section \<open>Properties of the throttle\<close>

text \<open>
  Claim C10. The throttle stage of \<open>processJob\<close> does not depend on the job's override:
  it is \<open>throttle_check\<close> on the scraper's own configuration, it is skipped exactly when
  that configuration's \<open>perDomainDelayMs\<close> is not positive (or the url has no host), and a
  sleep lasts that configuration's delay minus the elapsed time.
\<close>

theorem throttle_ignores_job_override:
  "processJob_throttle config hn tbl (job\<lparr>job_config := ov\<rparr>) now =
     throttle_check config hn tbl (job_url job) now \<and>
   (processJob_throttle config hn tbl (job\<lparr>job_config := ov\<rparr>) now = Skip \<longleftrightarrow>
      perDomainDelayMs config \<le> 0 \<or> hn (job_url job) = None) \<and>
   (\<forall>h d. processJob_throttle config hn tbl (job\<lparr>job_config := ov\<rparr>) now = Sleep h d \<longrightarrow>
      (\<exists>lastReq. map_of tbl h = Some lastReq \<and> d = perDomainDelayMs config - (now - lastReq)))"
  by (auto simp: processJob_throttle_def throttle_check_def Let_def split: option.splits if_splits)

theorem throttle_ignores_job_override_witness:
  "perDomainDelayMs (spread DEFAULT_CONFIG (override_delay 0)) = 0 \<and>
   processJob_throttle DEFAULT_CONFIG host_of [(''example.com'', 0)]
      (job_a\<lparr>job_config := override_delay 0\<rparr>) 10 = Sleep ''example.com'' 990 \<and>
   perDomainDelayMs (spread (DEFAULT_CONFIG\<lparr>perDomainDelayMs := 0\<rparr>) (override_delay 1000)) = 1000 \<and>
   processJob_throttle (DEFAULT_CONFIG\<lparr>perDomainDelayMs := 0\<rparr>) host_of [(''example.com'', 0)]
      (job_a\<lparr>job_config := override_delay 1000\<rparr>) 10 = Skip"
proof -
  have h: "host_of (job_url job_a) = Some ''example.com''"
    by (simp add: host_of_def job_a_def)
  have a: "throttle_check DEFAULT_CONFIG host_of [(''example.com'', 0)] (job_url job_a) 10
             = Sleep ''example.com'' 990"
    by (simp add: throttle_check_def h DEFAULT_CONFIG_def)
  have b: "perDomainDelayMs (DEFAULT_CONFIG\<lparr>perDomainDelayMs := 0\<rparr>) \<le> 0" by simp
  have c: "perDomainDelayMs (spread DEFAULT_CONFIG (override_delay 0)) = 0"
    "perDomainDelayMs (spread (DEFAULT_CONFIG\<lparr>perDomainDelayMs := 0\<rparr>) (override_delay 1000)) = 1000"
    by (simp_all add: spread_def override_delay_def pick_def no_override_def)
  note t1 = throttle_ignores_job_override [where config = DEFAULT_CONFIG and hn = host_of
      and tbl = "[(''example.com'', 0)]" and job = job_a and ov = "override_delay 0" and now = 10]
  note t2 = throttle_ignores_job_override [where config = "DEFAULT_CONFIG\<lparr>perDomainDelayMs := 0\<rparr>"
      and hn = host_of and tbl = "[(''example.com'', 0)]" and job = job_a
      and ov = "override_delay 1000" and now = 10]
  have s1: "processJob_throttle DEFAULT_CONFIG host_of [(''example.com'', 0)]
      (job_a\<lparr>job_config := override_delay 0\<rparr>) 10 = Sleep ''example.com'' 990"
    using conjunct1 [OF t1] a by simp
  have s2: "processJob_throttle (DEFAULT_CONFIG\<lparr>perDomainDelayMs := 0\<rparr>) host_of [(''example.com'', 0)]
      (job_a\<lparr>job_config := override_delay 1000\<rparr>) 10 = Skip"
    using conjunct1 [OF conjunct2 [OF t2]] b by blast
  from c s1 s2 show ?thesis by blast
qed

lemma host_samples:
  "host_of ''https://example.com/a'' = Some ''example.com''"
  "host_of ''https://example.com/b'' = Some ''example.com''"
  "host_of ''https://example.com/c'' = Some ''example.com''"
  by (simp_all add: host_of_def)

text \<open>
  Claim C8 at a failing input: \<open>perDomainDelayMs = 1000\<close>, three jobs for
  \<open>example.com\<close>. Job 0 stores timestamp 0. Jobs 1 and 2 enter at time 10, both read
  timestamp 0 and both sleep 990 ms; no timer fires early. Both store timestamp 1000:
  two requests to one host are dispatched 0 ms apart.
\<close>

theorem throttle_overlap_same_timestamp:
  "timers_respected DEFAULT_CONFIG host_of tinit overlap_trace \<and>
   dispatched (trun DEFAULT_CONFIG host_of overlap_trace) =
     [(0, ''example.com'', 0), (1, ''example.com'', 1000), (2, ''example.com'', 1000)]"
  by (simp add: overlap_trace_def trun_def tinit_def throttle_check_def throttle_record_def
      host_samples DEFAULT_CONFIG_def)

text \<open>
  A call that starts after the previous timestamp for its host was stored is spaced from
  it by the configured delay, provided its timer does not fire early.
\<close>

lemma throttle_sequential_gap:
  assumes "throttle_check cfg hn tbl url now = Sleep h d \<or> throttle_check cfg hn tbl url now = Proceed h"
    and "map_of tbl h = Some t1"
    and "now \<le> now_set"
    and "\<forall>d. throttle_check cfg hn tbl url now = Sleep h d \<longrightarrow> now + d \<le> now_set"
  shows "perDomainDelayMs cfg \<le> now_set - t1"
  using assms
  by (auto simp: throttle_check_def Let_def split: if_splits option.splits)

end
